theory Spec2Isabelle
  imports Main "HOL-Library.Word"
begin

section \<open>The chained hash table of lib9p (hashtable.c)\<close>

text \<open>
  The table maps a 32-bit hash to an opaque value pointer. It owns an array of
  \<open>ht_nentries\<close> buckets, each the head of a \<open>TAILQ\<close> of heap-allocated items.
  The model is sequential: the reader/writer lock calls of the source are left out.
  Each function of the source holds the table's lock around its reads and writes of
  the chains and releases it on every return path, so one call runs as one step.

  Pointers are explicit. An item pointer is \<open>None\<close> (\<open>NULL\<close>) or \<open>Some a\<close> for a
  block address \<open>a\<close>. A \<open>TAILQ\<close> back link (\<open>tqe_prev\<close>, \<open>tqh_last\<close>) is the address
  of a pointer field: the \<open>tqh_first\<close> field of bucket \<open>i\<close> (\<open>Head i\<close>) or the
  \<open>tqe_next\<close> field of the item at \<open>a\<close> (\<open>Next a\<close>).
  A value pointer (\<open>void *\<close>) is \<open>'v option\<close>, with \<open>None\<close> for \<open>NULL\<close>.
\<close>

type_synonym addr = nat

datatype cell = Head nat | Next addr

text \<open>
  Undefined behaviour of the C program is a result of its own: a division by zero
  in \<open>hash % ht_nentries\<close>, a read or write through a pointer to no live item
  (\<open>NULL\<close>, freed, or never allocated), an access beyond the bucket array.
\<close>

datatype fault = DivideByZero | InvalidPointer | OutOfBounds

text \<open>The \<open>errno\<close> values the source sets before it returns \<open>-1\<close>.\<close>

datatype errno = EEXIST | ENOENT | EINVAL

text \<open>\<open>OK\<close> is \<open>return (0)\<close>; \<open>ERR e\<close> is \<open>errno = e; return (-1)\<close>.\<close>

datatype status = OK | ERR errno

text \<open>
  \<open>struct ht_item\<close>: the hash, the value pointer and the \<open>TAILQ_ENTRY\<close> link
  \<open>hti_link\<close> with its two fields. The structures are declared in \<open>hashtable.h\<close>;
  the records have the fields that \<open>hashtable.c\<close> reads and writes.
\<close>

record 'v ht_item =
  hti_hash :: "32 word"
  hti_data :: "'v option"
  tqe_next :: "addr option"
  tqe_prev :: "cell option"

text \<open>\<open>struct ht_entry\<close>: one bucket, the \<open>TAILQ_HEAD\<close> \<open>hte_items\<close>.\<close>

record ht_entry =
  tqh_first :: "addr option"
  tqh_last :: "cell option"

text \<open>
  \<open>struct ht\<close> together with the items it points to. \<open>ht_items\<close> is the store of
  \<open>struct ht_item\<close> blocks: position \<open>a\<close> holds \<open>Some item\<close> while the block at
  address \<open>a\<close> is allocated and \<open>None\<close> once it is freed. The bucket count has
  the type of the argument of \<open>ht_init\<close>, \<open>size_t\<close>, taken to be 64 bits wide;
  the iterator's slot, which \<open>ht_next\<close> compares with it, has the same type.
\<close>

record 'v ht =
  ht_nentries :: "64 word"
  ht_entries :: "ht_entry list"
  ht_items :: "'v ht_item option list"

text \<open>
  \<open>struct ht_iter\<close>. The field \<open>htit_parent\<close> is not stored: every iterator
  function takes the parent table as its first argument, and the functions that
  write to the iterator return its new value.
\<close>

record ht_iter =
  htit_slot :: "64 word"
  htit_cursor :: "addr option"

subsection \<open>The item store\<close>

text \<open>The item at address \<open>a\<close>, if that block is live.\<close>

definition load :: "'v ht_item option list \<Rightarrow> addr \<Rightarrow> 'v ht_item option" where
  "load m a = (if a < length m then m ! a else None)"

text \<open>
  Modelled from the spec: \<open>l9p_calloc\<close> is not part of \<open>hashtable.c\<close>. The spec has
  insert "allocate a new entry node" and treats allocation failure as fatal, so the
  model's allocation always succeeds. It returns a zero-filled block at an address
  never handed out before, so that a pointer to a freed block never aliases a later
  allocation.
\<close>

definition l9p_calloc :: "'v ht_item option list \<Rightarrow> addr \<times> 'v ht_item option list" where
  "l9p_calloc m =
     (length m,
      m @ [Some \<lparr>hti_hash = 0, hti_data = None, tqe_next = None, tqe_prev = None\<rparr>])"

text \<open>\<open>free(item)\<close>: freeing a block that is not live is undefined.\<close>

definition free_item :: "'v ht \<Rightarrow> addr \<Rightarrow> fault + 'v ht" where
  "free_item h a =
     (case load (ht_items h) a of
        None \<Rightarrow> Inl InvalidPointer
      | Some e \<Rightarrow> Inr (h\<lparr>ht_items := (ht_items h)[a := None]\<rparr>))"

subsection \<open>The queue macros of \<open>sys/queue.h\<close>\<close>

text \<open>
  The macros come from the system header. They are written out here as the header
  defines them when its debugging options are off, one store per assignment;
  \<open>TAILQ_FIRST\<close> and \<open>TAILQ_NEXT\<close> are reads of \<open>tqh_first\<close> and \<open>tqe_next\<close>.
\<close>

text \<open>\<open>*c = p\<close> for the pointer field at \<open>c\<close>.\<close>

definition store_cell :: "'v ht \<Rightarrow> cell \<Rightarrow> addr option \<Rightarrow> fault + 'v ht" where
  "store_cell h c p =
     (case c of
        Head i \<Rightarrow>
          if i < length (ht_entries h)
          then Inr (h\<lparr>ht_entries := (ht_entries h)[i := (ht_entries h ! i)\<lparr>tqh_first := p\<rparr>]\<rparr>)
          else Inl OutOfBounds
      | Next a \<Rightarrow>
          (case load (ht_items h) a of
             None \<Rightarrow> Inl InvalidPointer
           | Some e \<Rightarrow> Inr (h\<lparr>ht_items := (ht_items h)[a := Some (e\<lparr>tqe_next := p\<rparr>)]\<rparr>)))"

text \<open>
  \<open>TAILQ_INSERT_TAIL(head, elm, field)\<close> with \<open>head = &h->ht_entries[i].hte_items\<close>:
  \<^verbatim>\<open>
  elm->tqe_next = NULL;
  elm->tqe_prev = head->tqh_last;
  *head->tqh_last = elm;
  head->tqh_last = &elm->tqe_next;
  \<close>
\<close>

definition TAILQ_INSERT_TAIL :: "'v ht \<Rightarrow> nat \<Rightarrow> addr \<Rightarrow> fault + 'v ht" where
  "TAILQ_INSERT_TAIL h i a =
     (case load (ht_items h) a of
        None \<Rightarrow> Inl InvalidPointer
      | Some e \<Rightarrow>
          if \<not> i < length (ht_entries h) then Inl OutOfBounds
          else
            let l = tqh_last (ht_entries h ! i);
                h1 = h\<lparr>ht_items := (ht_items h)[a := Some (e\<lparr>tqe_next := None, tqe_prev := l\<rparr>)]\<rparr>
            in (case l of
                  None \<Rightarrow> Inl InvalidPointer
                | Some c \<Rightarrow>
                    (case store_cell h1 c (Some a) of
                       Inl f \<Rightarrow> Inl f
                     | Inr h2 \<Rightarrow>
                         Inr (h2\<lparr>ht_entries :=
                                (ht_entries h2)[i := (ht_entries h2 ! i)\<lparr>tqh_last := Some (Next a)\<rparr>]\<rparr>))))"

text \<open>
  \<open>TAILQ_REMOVE(head, elm, field)\<close> with \<open>head = &h->ht_entries[i].hte_items\<close>:
  \<^verbatim>\<open>
  if (elm->tqe_next != NULL)
          elm->tqe_next->tqe_prev = elm->tqe_prev;
  else
          head->tqh_last = elm->tqe_prev;
  *elm->tqe_prev = elm->tqe_next;
  \<close>
  The link fields of \<open>elm\<close> itself keep their values.
\<close>

definition TAILQ_REMOVE :: "'v ht \<Rightarrow> nat \<Rightarrow> addr \<Rightarrow> fault + 'v ht" where
  "TAILQ_REMOVE h i a =
     (case load (ht_items h) a of
        None \<Rightarrow> Inl InvalidPointer
      | Some e \<Rightarrow>
          (case (case tqe_next e of
                   Some b \<Rightarrow>
                     (case load (ht_items h) b of
                        None \<Rightarrow> Inl InvalidPointer
                      | Some eb \<Rightarrow>
                          Inr (h\<lparr>ht_items := (ht_items h)[b := Some (eb\<lparr>tqe_prev := tqe_prev e\<rparr>)]\<rparr>))
                 | None \<Rightarrow>
                     if i < length (ht_entries h)
                     then Inr (h\<lparr>ht_entries :=
                                 (ht_entries h)[i := (ht_entries h ! i)\<lparr>tqh_last := tqe_prev e\<rparr>]\<rparr>)
                     else Inl OutOfBounds) of
             Inl f \<Rightarrow> Inl f
           | Inr h1 \<Rightarrow>
               (case load (ht_items h1) a of
                  None \<Rightarrow> Inl InvalidPointer
                | Some e1 \<Rightarrow>
                    (case tqe_prev e1 of
                       None \<Rightarrow> Inl InvalidPointer
                     | Some c \<Rightarrow> store_cell h1 c (tqe_next e1)))))"

subsection \<open>\<open>ht_init\<close>\<close>

text \<open>
  The bucket array is zero-filled by \<open>l9p_calloc\<close> and every queue head is then set
  by \<open>TAILQ_INIT\<close>: \<open>tqh_first = NULL; tqh_last = &tqh_first\<close>. No item exists yet.
\<close>

definition ht_init :: "64 word \<Rightarrow> 'v ht" where
  "ht_init sz =
     \<lparr>ht_nentries = sz,
      ht_entries = map (\<lambda>i. \<lparr>tqh_first = None, tqh_last = Some (Head i)\<rparr>) [0..<unat sz],
      ht_items = []\<rparr>"

text \<open>The bucket index \<open>hash % h->ht_nentries\<close>, computed in \<open>size_t\<close>.\<close>

definition ht_slot :: "'v ht \<Rightarrow> 32 word \<Rightarrow> nat" where
  "ht_slot h hash = unat ((ucast hash :: 64 word) mod ht_nentries h)"

subsection \<open>\<open>ht_find\<close>\<close>

text \<open>
  The \<open>TAILQ_FOREACH\<close> loop from the item pointer \<open>p\<close>. A chain that loops back on
  itself makes the C loop run forever; the result is then \<open>None\<close>.
\<close>

partial_function (option) ht_find_loop ::
  "'v ht_item option list \<Rightarrow> addr option \<Rightarrow> 32 word \<Rightarrow> (fault + 'v option) option" where
  "ht_find_loop m p hash =
     (case p of
        None \<Rightarrow> Some (Inr None)
      | Some a \<Rightarrow>
          (case load m a of
             None \<Rightarrow> Some (Inl InvalidPointer)
           | Some e \<Rightarrow>
               if hti_hash e = hash then Some (Inr (hti_data e))
               else ht_find_loop m (tqe_next e) hash))"

declare ht_find_loop.simps [code]

definition ht_find :: "'v ht \<Rightarrow> 32 word \<Rightarrow> (fault + 'v option) option" where
  "ht_find h hash =
     (if ht_nentries h = 0 then Some (Inl DivideByZero)
      else if \<not> ht_slot h hash < length (ht_entries h) then Some (Inl OutOfBounds)
      else ht_find_loop (ht_items h) (tqh_first (ht_entries h ! ht_slot h hash)) hash)"

subsection \<open>\<open>ht_add\<close>\<close>

text \<open>The duplicate scan: \<open>True\<close> when an item with the hash is on the chain.\<close>

partial_function (option) ht_add_loop ::
  "'v ht_item option list \<Rightarrow> addr option \<Rightarrow> 32 word \<Rightarrow> (fault + bool) option" where
  "ht_add_loop m p hash =
     (case p of
        None \<Rightarrow> Some (Inr False)
      | Some a \<Rightarrow>
          (case load m a of
             None \<Rightarrow> Some (Inl InvalidPointer)
           | Some e \<Rightarrow>
               if hti_hash e = hash then Some (Inr True)
               else ht_add_loop m (tqe_next e) hash))"

declare ht_add_loop.simps [code]

definition ht_add :: "'v ht \<Rightarrow> 32 word \<Rightarrow> 'v option \<Rightarrow> (fault + status \<times> 'v ht) option" where
  "ht_add h hash val =
     (if ht_nentries h = 0 then Some (Inl DivideByZero)
      else if \<not> ht_slot h hash < length (ht_entries h) then Some (Inl OutOfBounds)
      else
        (case ht_add_loop (ht_items h) (tqh_first (ht_entries h ! ht_slot h hash)) hash of
           None \<Rightarrow> None
         | Some (Inl f) \<Rightarrow> Some (Inl f)
         | Some (Inr True) \<Rightarrow> Some (Inr (ERR EEXIST, h))
         | Some (Inr False) \<Rightarrow>
             (case l9p_calloc (ht_items h) of
                (a, m) \<Rightarrow>
                  (case load m a of
                     None \<Rightarrow> Some (Inl InvalidPointer)
                   | Some e \<Rightarrow>
                       (case TAILQ_INSERT_TAIL
                               (h\<lparr>ht_items := m[a := Some (e\<lparr>hti_hash := hash, hti_data := val\<rparr>)]\<rparr>)
                               (ht_slot h hash) a of
                          Inl f \<Rightarrow> Some (Inl f)
                        | Inr h' \<Rightarrow> Some (Inr (OK, h')))))))"

subsection \<open>\<open>ht_remove\<close>\<close>

text \<open>
  The \<open>TAILQ_FOREACH_SAFE\<close> loop: the successor is read before the body runs, and
  the body returns as soon as it has removed and freed the matching item.
\<close>

partial_function (option) ht_remove_loop ::
  "'v ht \<Rightarrow> nat \<Rightarrow> addr option \<Rightarrow> 32 word \<Rightarrow> (fault + status \<times> 'v ht) option" where
  "ht_remove_loop h i p hash =
     (case p of
        None \<Rightarrow> Some (Inr (ERR ENOENT, h))
      | Some a \<Rightarrow>
          (case load (ht_items h) a of
             None \<Rightarrow> Some (Inl InvalidPointer)
           | Some e \<Rightarrow>
               if hti_hash e = hash
               then (case TAILQ_REMOVE h i a of
                       Inl f \<Rightarrow> Some (Inl f)
                     | Inr h1 \<Rightarrow>
                         (case free_item h1 a of
                            Inl f \<Rightarrow> Some (Inl f)
                          | Inr h2 \<Rightarrow> Some (Inr (OK, h2))))
               else ht_remove_loop h i (tqe_next e) hash))"

declare ht_remove_loop.simps [code]

definition ht_remove :: "'v ht \<Rightarrow> 32 word \<Rightarrow> (fault + status \<times> 'v ht) option" where
  "ht_remove h hash =
     (if ht_nentries h = 0 then Some (Inl DivideByZero)
      else if \<not> ht_slot h hash < length (ht_entries h) then Some (Inl OutOfBounds)
      else ht_remove_loop h (ht_slot h hash) (tqh_first (ht_entries h ! ht_slot h hash)) hash)"

subsection \<open>\<open>ht_remove_at_iter\<close>\<close>

text \<open>
  The iterator is passed by pointer (the \<open>assert\<close> that it is not \<open>NULL\<close> holds of
  every iterator value). The function returns it as it leaves it, which is as it
  found it: no statement of the source assigns to a field of \<open>iter\<close>.
\<close>

definition ht_remove_at_iter ::
  "'v ht \<Rightarrow> ht_iter \<Rightarrow> fault + status \<times> 'v ht \<times> ht_iter" where
  "ht_remove_at_iter h iter =
     (case htit_cursor iter of
        None \<Rightarrow> Inr (ERR EINVAL, h, iter)
      | Some a \<Rightarrow>
          (case TAILQ_REMOVE h (unat (htit_slot iter)) a of
             Inl f \<Rightarrow> Inl f
           | Inr h1 \<Rightarrow>
               (case free_item h1 a of
                  Inl f \<Rightarrow> Inl f
                | Inr h2 \<Rightarrow> Inr (OK, h2, iter))))"

subsection \<open>\<open>ht_iter\<close> and \<open>ht_next\<close>\<close>

text \<open>\<open>ht_iter\<close> reads bucket 0, which a table without buckets does not have.\<close>

definition ht_iter :: "'v ht \<Rightarrow> fault + ht_iter" where
  "ht_iter h =
     (if 0 < length (ht_entries h)
      then Inr \<lparr>htit_slot = 0, htit_cursor = tqh_first (ht_entries h ! 0)\<rparr>
      else Inl OutOfBounds)"

text \<open>
  \<open>ht_next\<close> from the label \<open>retry\<close>. Every jump back to \<open>retry\<close> has incremented
  \<open>htit_slot\<close>, a \<open>size_t\<close> that wraps around, so the slot reaches \<open>ht_nentries\<close>
  and the function always returns.
\<close>

function ht_next :: "'v ht \<Rightarrow> ht_iter \<Rightarrow> fault + 'v option \<times> ht_iter" where
  "ht_next h iter =
     (if htit_slot iter = ht_nentries h then Inr (None, iter)
      else
        (case htit_cursor iter of
           None \<Rightarrow> ht_next h (iter\<lparr>htit_slot := htit_slot iter + 1\<rparr>)
         | Some a \<Rightarrow>
             (case load (ht_items h) a of
                None \<Rightarrow> Inl InvalidPointer
              | Some e \<Rightarrow>
                  (case tqe_next e of
                     None \<Rightarrow>
                       ht_next h (iter\<lparr>htit_cursor := None, htit_slot := htit_slot iter + 1\<rparr>)
                   | Some b \<Rightarrow> Inr (hti_data e, iter\<lparr>htit_cursor := Some b\<rparr>)))))"
  by pat_completeness auto

termination ht_next
proof (relation "measure (\<lambda>(h, iter). unat (ht_nentries h - htit_slot iter))")
  show "wf (measure (\<lambda>(h :: 'v ht, iter). unat (ht_nentries h - htit_slot iter)))"
    by simp
next
  fix h :: "'v ht" and iter :: ht_iter
  assume ne: "htit_slot iter \<noteq> ht_nentries h"
  have nz: "ht_nentries h - htit_slot iter \<noteq> 0" using ne by simp
  have eq: "ht_nentries h - (htit_slot iter + 1) = (ht_nentries h - htit_slot iter) - 1"
    by simp
  have dec: "unat (ht_nentries h - (htit_slot iter + 1)) < unat (ht_nentries h - htit_slot iter)"
    unfolding eq using nz by (simp add: unat_minus_one unat_gt_0)
  show "((h, iter\<lparr>htit_slot := htit_slot iter + 1\<rparr>), (h, iter)) \<in>
          measure (\<lambda>(h, iter). unat (ht_nentries h - htit_slot iter))"
    using dec by simp
  show "((h, iter\<lparr>htit_cursor := None, htit_slot := htit_slot iter + 1\<rparr>), (h, iter)) \<in>
          measure (\<lambda>(h, iter). unat (ht_nentries h - htit_slot iter))"
    using dec by simp
qed

subsection \<open>\<open>ht_destroy\<close>\<close>

text \<open>
  The inner loop \<open>while ((hi = TAILQ_NEXT(hi, hti_link)) != NULL) TAILQ_REMOVE(...)\<close>
  for bucket \<open>i\<close>, entered with \<open>hi\<close> at the first item of the chain.
\<close>

partial_function (option) ht_destroy_while ::
  "'v ht \<Rightarrow> nat \<Rightarrow> addr \<Rightarrow> (fault + 'v ht) option" where
  "ht_destroy_while h i hi =
     (case load (ht_items h) hi of
        None \<Rightarrow> Some (Inl InvalidPointer)
      | Some e \<Rightarrow>
          (case tqe_next e of
             None \<Rightarrow> Some (Inr h)
           | Some b \<Rightarrow>
               (case TAILQ_REMOVE h i b of
                  Inl f \<Rightarrow> Some (Inl f)
                | Inr h1 \<Rightarrow> ht_destroy_while h1 i b)))"

declare ht_destroy_while.simps [code]

text \<open>The outer loop \<open>for (i = 0; i < h->ht_nentries; i++)\<close>, from \<open>i\<close> on.\<close>

partial_function (option) ht_destroy_for ::
  "'v ht \<Rightarrow> 64 word \<Rightarrow> (fault + 'v ht) option" where
  "ht_destroy_for h i =
     (if \<not> i < ht_nentries h then Some (Inr h)
      else if \<not> unat i < length (ht_entries h) then Some (Inl OutOfBounds)
      else
        (case tqh_first (ht_entries h ! unat i) of
           None \<Rightarrow> ht_destroy_for h (i + 1)
         | Some hi \<Rightarrow>
             Option.bind (ht_destroy_while h (unat i) hi)
               (\<lambda>r. case r of
                      Inl f \<Rightarrow> Some (Inl f)
                    | Inr h1 \<Rightarrow> ht_destroy_for h1 (i + 1))))"

declare ht_destroy_for.simps [code]

text \<open>
  After the loops the source destroys the lock and frees the bucket array and the
  table structure; it calls \<open>free\<close> on no item. What is left of the table is the
  item store, which \<open>ht_destroy\<close> returns: the blocks still \<open>Some\<close> in it are
  allocated and no pointer to them remains.
\<close>

definition ht_destroy :: "'v ht \<Rightarrow> (fault + 'v ht_item option list) option" where
  "ht_destroy h =
     (case ht_destroy_for h 0 of
        None \<Rightarrow> None
      | Some (Inl f) \<Rightarrow> Some (Inl f)
      | Some (Inr h1) \<Rightarrow> Some (Inr (ht_items h1)))"

subsection \<open>Callers' loops\<close>

text \<open>
  A full iteration as a caller writes it: \<open>while ((v = ht_next(&iter)) != NULL)\<close>,
  collecting the values in the order they are returned.
\<close>

partial_function (option) ht_drain :: "'v ht \<Rightarrow> ht_iter \<Rightarrow> (fault + 'v list) option" where
  "ht_drain h iter =
     (case ht_next h iter of
        Inl f \<Rightarrow> Some (Inl f)
      | Inr (None, iter') \<Rightarrow> Some (Inr [])
      | Inr (Some v, iter') \<Rightarrow>
          Option.bind (ht_drain h iter')
            (\<lambda>r. case r of Inl f \<Rightarrow> Some (Inl f) | Inr vs \<Rightarrow> Some (Inr (v # vs))))"

declare ht_drain.simps [code]

text \<open>A sequence of \<open>ht_add\<close> calls, whatever each one returns.\<close>

fun ht_add_all :: "'v ht \<Rightarrow> (32 word \<times> 'v option) list \<Rightarrow> (fault + 'v ht) option" where
  "ht_add_all h [] = Some (Inr h)"
| "ht_add_all h ((hash, val) # kvs) =
     (case ht_add h hash val of
        None \<Rightarrow> None
      | Some (Inl f) \<Rightarrow> Some (Inl f)
      | Some (Inr (st, h')) \<Rightarrow> ht_add_all h' kvs)"

section \<open>Chains, invariants and reachable states\<close>

text \<open>
  \<open>seg m c p as q\<close>: following \<open>tqe_next\<close> from the pointer \<open>p\<close> visits exactly the
  live items \<open>as\<close> and then reads \<open>q\<close>, and the back link of each item is the address
  of the field that points to it, \<open>c\<close> for the first one.
\<close>

primrec seg ::
  "'v ht_item option list \<Rightarrow> cell \<Rightarrow> addr option \<Rightarrow> addr list \<Rightarrow> addr option \<Rightarrow> bool" where
  "seg m c p [] q = (p = q)"
| "seg m c p (a # as) q =
     (p = Some a \<and>
      (case load m a of
         None \<Rightarrow> False
       | Some e \<Rightarrow> tqe_prev e = Some c \<and> seg m (Next a) (tqe_next e) as q))"

text \<open>The pointer field that ends the items \<open>as\<close> of a queue starting at \<open>c\<close>.\<close>

definition lcell :: "cell \<Rightarrow> addr list \<Rightarrow> cell" where
  "lcell c as = (if as = [] then c else Next (last as))"

text \<open>
  \<open>ht_chain h i as\<close>: the queue of bucket \<open>i\<close> is well formed and holds the items
  \<open>as\<close>, in this order, from \<open>tqh_first\<close> to \<open>NULL\<close>.
\<close>

definition ht_chain :: "'v ht \<Rightarrow> nat \<Rightarrow> addr list \<Rightarrow> bool" where
  "ht_chain h i as \<longleftrightarrow>
     i < length (ht_entries h) \<and>
     seg (ht_items h) (Head i) (tqh_first (ht_entries h ! i)) as None \<and>
     tqh_last (ht_entries h ! i) = Some (lcell (Head i) as)"

text \<open>The hash stored in the live item at \<open>a\<close>.\<close>

definition hash_at :: "'v ht_item option list \<Rightarrow> addr \<Rightarrow> 32 word option" where
  "hash_at m a = map_option hti_hash (load m a)"

text \<open>
  The table has a positive number of buckets and its bucket array has that length.
\<close>

definition ht_sized :: "'v ht \<Rightarrow> bool" where
  "ht_sized h \<longleftrightarrow> ht_nentries h \<noteq> 0 \<and> length (ht_entries h) = unat (ht_nentries h)"

text \<open>
  First structural invariant, for the chains \<open>cs\<close> of the buckets: every bucket's
  queue is \<open>cs i\<close>, without repetition, and every entry (live item) is on the
  chain at index \<open>hash mod ht_nentries\<close> and on no other.
\<close>

definition inv_placement :: "'v ht \<Rightarrow> (nat \<Rightarrow> addr list) \<Rightarrow> bool" where
  "inv_placement h cs \<longleftrightarrow>
     (\<forall>i < length (ht_entries h). ht_chain h i (cs i) \<and> distinct (cs i)) \<and>
     (\<forall>a e. load (ht_items h) a = Some e \<longrightarrow>
        (\<forall>i < length (ht_entries h). a \<in> set (cs i) \<longleftrightarrow> i = ht_slot h (hti_hash e)))"

text \<open>Second structural invariant: within a chain no two entries have the same hash.\<close>

definition inv_unique :: "'v ht \<Rightarrow> (nat \<Rightarrow> addr list) \<Rightarrow> bool" where
  "inv_unique h cs \<longleftrightarrow>
     (\<forall>i < length (ht_entries h). distinct (map (hash_at (ht_items h)) (cs i)))"

definition ht_inv :: "'v ht \<Rightarrow> (nat \<Rightarrow> addr list) \<Rightarrow> bool" where
  "ht_inv h cs \<longleftrightarrow> ht_sized h \<and> inv_placement h cs \<and> inv_unique h cs"

text \<open>
  What holds of an iterator of the table: a cursor that is not \<open>NULL\<close> is an address
  that has been allocated, its slot is a bucket index, and while the item is live it
  belongs to that bucket.
\<close>

definition iter_ok :: "'v ht \<Rightarrow> ht_iter \<Rightarrow> bool" where
  "iter_ok h iter \<longleftrightarrow>
     (case htit_cursor iter of
        None \<Rightarrow> True
      | Some a \<Rightarrow>
          a < length (ht_items h) \<and> unat (htit_slot iter) < length (ht_entries h) \<and>
          (case load (ht_items h) a of
             None \<Rightarrow> True
           | Some e \<Rightarrow> ht_slot h (hti_hash e) = unat (htit_slot iter)))"

text \<open>
  The states a program reaches through the interface: a table initialised with a
  positive bucket count, together with the iterators begun on it, after any sequence
  of calls that return. A call whose behaviour is undefined has no successor state.
\<close>

inductive reach :: "'v ht \<Rightarrow> ht_iter list \<Rightarrow> bool" where
  init: "sz \<noteq> 0 \<Longrightarrow> reach (ht_init sz) []"
| add: "reach h its \<Longrightarrow> ht_add h hash val = Some (Inr (st, h')) \<Longrightarrow> reach h' its"
| remove: "reach h its \<Longrightarrow> ht_remove h hash = Some (Inr (st, h')) \<Longrightarrow> reach h' its"
| iter: "reach h its \<Longrightarrow> ht_iter h = Inr it \<Longrightarrow> reach h (it # its)"
| advance: "reach h its \<Longrightarrow> k < length its \<Longrightarrow> ht_next h (its ! k) = Inr (v, it') \<Longrightarrow>
     reach h (its[k := it'])"
| remove_at_iter:
    "reach h its \<Longrightarrow> k < length its \<Longrightarrow>
     ht_remove_at_iter h (its ! k) = Inr (st, h', it') \<Longrightarrow> reach h' (its[k := it'])"

text \<open>The hash and the value stored in the live item at \<open>a\<close>.\<close>

definition payload :: "'v ht_item option list \<Rightarrow> addr \<Rightarrow> (32 word \<times> 'v option) option" where
  "payload m a = map_option (\<lambda>e. (hti_hash e, hti_data e)) (load m a)"

text \<open>
  The entries of the table as a list of (hash, value) pairs, one for every live
  item; \<open>stored h x v\<close>: an entry with hash \<open>x\<close> and value \<open>v\<close> is in the table;
  \<open>absent h x\<close>: no entry has the hash \<open>x\<close>.
\<close>

definition ht_pairs :: "'v ht \<Rightarrow> (32 word \<times> 'v option) list" where
  "ht_pairs h =
     concat (map (\<lambda>b. case b of None \<Rightarrow> [] | Some e \<Rightarrow> [(hti_hash e, hti_data e)]) (ht_items h))"

definition stored :: "'v ht \<Rightarrow> 32 word \<Rightarrow> 'v option \<Rightarrow> bool" where
  "stored h x v \<longleftrightarrow> (x, v) \<in> set (ht_pairs h)"

definition absent :: "'v ht \<Rightarrow> 32 word \<Rightarrow> bool" where
  "absent h x \<longleftrightarrow> x \<notin> set (map fst (ht_pairs h))"

text \<open>The number of item blocks that are allocated.\<close>

definition ht_live :: "'v ht_item option list \<Rightarrow> nat" where
  "ht_live m = length (filter (\<lambda>b. b \<noteq> None) m)"

subsection \<open>Example tables\<close>

text \<open>
  Tables with four buckets and values of type \<open>nat\<close>, written out as the store
  holds them. \<open>ex_item\<close> and \<open>ex_bucket\<close> only shorten the notation.
\<close>

definition ex_item :: "32 word \<Rightarrow> nat option \<Rightarrow> addr option \<Rightarrow> cell \<Rightarrow> nat ht_item option" where
  "ex_item hash val nxt prv =
     Some \<lparr>hti_hash = hash, hti_data = val, tqe_next = nxt, tqe_prev = Some prv\<rparr>"

definition ex_bucket :: "addr option \<Rightarrow> cell \<Rightarrow> ht_entry" where
  "ex_bucket first lst = \<lparr>tqh_first = first, tqh_last = Some lst\<rparr>"

text \<open>One entry, hash 5, in bucket 1; the same table with the value \<open>NULL\<close>.\<close>

definition ex_one :: "nat ht" where
  "ex_one =
     \<lparr>ht_nentries = 4,
      ht_entries = [ex_bucket None (Head 0), ex_bucket (Some 0) (Next 0),
                    ex_bucket None (Head 2), ex_bucket None (Head 3)],
      ht_items = [ex_item 5 (Some 50) None (Head 1)]\<rparr>"

definition ex_null :: "nat ht" where
  "ex_null =
     \<lparr>ht_nentries = 4,
      ht_entries = [ex_bucket None (Head 0), ex_bucket (Some 0) (Next 0),
                    ex_bucket None (Head 2), ex_bucket None (Head 3)],
      ht_items = [ex_item 5 None None (Head 1)]\<rparr>"

text \<open>\<open>ex_one\<close> after its entry is removed: the block is freed, bucket 1 is empty.\<close>

definition ex_gone :: "nat ht" where
  "ex_gone =
     \<lparr>ht_nentries = 4,
      ht_entries = [ex_bucket None (Head 0), ex_bucket None (Head 1),
                    ex_bucket None (Head 2), ex_bucket None (Head 3)],
      ht_items = [None]\<rparr>"

text \<open>
  The example scenario of the spec: hashes 1, 5 and 9 in bucket 1, hash 2 in bucket
  2, bucket 0 empty.
\<close>

definition ex_table :: "nat ht" where
  "ex_table =
     \<lparr>ht_nentries = 4,
      ht_entries = [ex_bucket None (Head 0), ex_bucket (Some 0) (Next 2),
                    ex_bucket (Some 3) (Next 3), ex_bucket None (Head 3)],
      ht_items = [ex_item 1 (Some 10) (Some 1) (Head 1),
                  ex_item 5 (Some 50) (Some 2) (Next 0),
                  ex_item 9 (Some 90) None (Next 1),
                  ex_item 2 (Some 20) None (Head 2)]\<rparr>"

text \<open>Hashes 0, 4 and 8 with the values 1, 2 and 3, all in bucket 0.\<close>

definition ex_chain :: "nat ht" where
  "ex_chain =
     \<lparr>ht_nentries = 4,
      ht_entries = [ex_bucket (Some 0) (Next 2), ex_bucket None (Head 1),
                    ex_bucket None (Head 2), ex_bucket None (Head 3)],
      ht_items = [ex_item 0 (Some 1) (Some 1) (Head 0),
                  ex_item 4 (Some 2) (Some 2) (Next 0),
                  ex_item 8 (Some 3) None (Next 1)]\<rparr>"

text \<open>\<open>ex_chain\<close> without the entry of hash 4 (the item at address 1).\<close>

definition ex_chain_cut :: "nat ht" where
  "ex_chain_cut =
     \<lparr>ht_nentries = 4,
      ht_entries = [ex_bucket (Some 0) (Next 2), ex_bucket None (Head 1),
                    ex_bucket None (Head 2), ex_bucket None (Head 3)],
      ht_items = [ex_item 0 (Some 1) (Some 2) (Head 0),
                  None,
                  ex_item 8 (Some 3) None (Next 0)]\<rparr>"

text \<open>\<open>ex_chain\<close> without the entry of hash 0 (the item at address 0).\<close>

definition ex_chain_beheaded :: "nat ht" where
  "ex_chain_beheaded =
     \<lparr>ht_nentries = 4,
      ht_entries = [ex_bucket (Some 1) (Next 2), ex_bucket None (Head 1),
                    ex_bucket None (Head 2), ex_bucket None (Head 3)],
      ht_items = [None,
                  ex_item 4 (Some 2) (Some 2) (Head 0),
                  ex_item 8 (Some 3) None (Next 1)]\<rparr>"

text \<open>Eight entries, hashes 0 to 7: two in every bucket.\<close>

definition ex_full :: "nat ht" where
  "ex_full =
     \<lparr>ht_nentries = 4,
      ht_entries = [ex_bucket (Some 0) (Next 4), ex_bucket (Some 1) (Next 5),
                    ex_bucket (Some 2) (Next 6), ex_bucket (Some 3) (Next 7)],
      ht_items = [ex_item 0 (Some 100) (Some 4) (Head 0),
                  ex_item 1 (Some 101) (Some 5) (Head 1),
                  ex_item 2 (Some 102) (Some 6) (Head 2),
                  ex_item 3 (Some 103) (Some 7) (Head 3),
                  ex_item 4 (Some 104) None (Next 0),
                  ex_item 5 (Some 105) None (Next 1),
                  ex_item 6 (Some 106) None (Next 2),
                  ex_item 7 (Some 107) None (Next 3)]\<rparr>"

text \<open>The item store \<open>ht_destroy\<close> leaves behind for \<open>ex_full\<close>.\<close>

definition ex_full_left :: "nat ht_item option list" where
  "ex_full_left =
     [ex_item 0 (Some 100) None (Head 0),
      ex_item 1 (Some 101) None (Head 1),
      ex_item 2 (Some 102) None (Head 2),
      ex_item 3 (Some 103) None (Head 3),
      ex_item 4 (Some 104) None (Next 0),
      ex_item 5 (Some 105) None (Next 1),
      ex_item 6 (Some 106) None (Next 2),
      ex_item 7 (Some 107) None (Next 3)]"

text \<open>
  Iterators: begun on a table whose bucket 0 is empty; run to the end of a table
  with four buckets; begun on \<open>ex_chain\<close>; and after one \<open>ht_next\<close> on \<open>ex_chain\<close>.
\<close>

definition ex_it_null :: ht_iter where
  "ex_it_null = \<lparr>htit_slot = 0, htit_cursor = None\<rparr>"

definition ex_it_end :: ht_iter where
  "ex_it_end = \<lparr>htit_slot = 4, htit_cursor = None\<rparr>"

definition ex_it0 :: ht_iter where
  "ex_it0 = \<lparr>htit_slot = 0, htit_cursor = Some 0\<rparr>"

definition ex_it1 :: ht_iter where
  "ex_it1 = \<lparr>htit_slot = 0, htit_cursor = Some 1\<rparr>"

declare ht_next.simps [simp del]

section \<open>Lemmas\<close>


lemma load_update:
  "load (m[a := v]) x = (if x = a \<and> a < length m then v else load m x)"
  by (simp add: load_def)

lemma load_append:
  "load (m @ [v]) x = (if x = length m then v else load m x)"
  by (auto simp: load_def nth_append)

lemma load_lt: "load m a = Some e \<Longrightarrow> a < length m"
  by (simp add: load_def split: if_splits)

lemma seg_frame:
  "(\<And>x. x \<in> set as \<Longrightarrow> load m' x = load m x) \<Longrightarrow> seg m' c p as q = seg m c p as q"
  by (induction as arbitrary: c p) (auto split: option.splits)

lemma seg_append:
  "seg m c p (as @ bs) q = (\<exists>r. seg m c p as r \<and> seg m (lcell c as) r bs q)"
proof (induction as arbitrary: c p)
  case Nil
  show ?case by (simp add: lcell_def)
next
  case (Cons a as)
  have l: "lcell c (a # as) = lcell (Next a) as" by (simp add: lcell_def)
  show ?case unfolding l by (auto simp: Cons split: option.splits)
qed

lemma seg_live: "seg m c p as q \<Longrightarrow> a \<in> set as \<Longrightarrow> \<exists>e. load m a = Some e"
  by (induction as arbitrary: c p) (auto split: option.splits)

lemma seg_set_next_last:
  "seg m c p as q \<Longrightarrow> as \<noteq> [] \<Longrightarrow> distinct as \<Longrightarrow> load m (last as) = Some e \<Longrightarrow>
   seg (m[last as := Some (e\<lparr>tqe_next := q'\<rparr>)]) c p as q'"
proof (induction as arbitrary: c p)
  case Nil
  then show ?case by simp
next
  case (Cons a as)
  show ?case
  proof (cases "as = []")
    case True
    with Cons.prems show ?thesis
      by (auto simp: load_update dest: load_lt split: option.splits)
  next
    case False
    with Cons.prems have na: "a \<noteq> last as" by auto
    from Cons.prems False obtain ea where
      ea: "load m a = Some ea" "tqe_prev ea = Some c" "p = Some a"
        "seg m (Next a) (tqe_next ea) as q"
      by (auto split: option.splits)
    have "seg (m[last as := Some (e\<lparr>tqe_next := q'\<rparr>)]) (Next a) (tqe_next ea) as q'"
      using Cons.IH[OF ea(4) False] Cons.prems False by simp
    then show ?thesis using ea na False by (simp add: load_update)
  qed
qed

lemma find_loop_absent:
  "seg m c p as None \<Longrightarrow> (\<forall>a\<in>set as. hash_at m a \<noteq> Some x) \<Longrightarrow>
   ht_find_loop m p x = Some (Inr None)"
proof (induction as arbitrary: c p)
  case Nil
  then show ?case by (simp add: ht_find_loop.simps)
next
  case (Cons a as)
  then show ?case
    by (subst ht_find_loop.simps) (auto simp: hash_at_def split: option.splits)
qed

lemma find_loop_present:
  "seg m c p as None \<Longrightarrow> a \<in> set as \<Longrightarrow> load m a = Some e \<Longrightarrow>
   (\<forall>b\<in>set as. hash_at m b = Some (hti_hash e) \<longrightarrow> b = a) \<Longrightarrow>
   ht_find_loop m p (hti_hash e) = Some (Inr (hti_data e))"
proof (induction as arbitrary: c p)
  case Nil
  then show ?case by simp
next
  case (Cons b as)
  from Cons.prems(1) obtain eb where
    eb: "p = Some b" "load m b = Some eb" "seg m (Next b) (tqe_next eb) as None"
    by (auto split: option.splits)
  show ?case
  proof (cases "b = a")
    case True
    then have "eb = e" using eb Cons.prems(3) by simp
    then show ?thesis using eb by (subst ht_find_loop.simps) simp
  next
    case False
    then have ain: "a \<in> set as" using Cons.prems(2) by simp
    have ne: "hti_hash eb \<noteq> hti_hash e"
      using Cons.prems(4) False eb by (auto simp: hash_at_def)
    have uniq: "\<forall>b\<in>set as. hash_at m b = Some (hti_hash e) \<longrightarrow> b = a"
      using Cons.prems(4) by simp
    have "ht_find_loop m (tqe_next eb) (hti_hash e) = Some (Inr (hti_data e))"
      by (rule Cons.IH[OF eb(3) ain Cons.prems(3) uniq])
    then show ?thesis using eb ne by (subst ht_find_loop.simps) simp
  qed
qed

lemma add_loop_absent:
  "seg m c p as None \<Longrightarrow> (\<forall>a\<in>set as. hash_at m a \<noteq> Some x) \<Longrightarrow>
   ht_add_loop m p x = Some (Inr False)"
proof (induction as arbitrary: c p)
  case Nil
  then show ?case by (simp add: ht_add_loop.simps)
next
  case (Cons a as)
  then show ?case
    by (subst ht_add_loop.simps) (auto simp: hash_at_def split: option.splits)
qed

lemma add_loop_present:
  "seg m c p as None \<Longrightarrow> a \<in> set as \<Longrightarrow> hash_at m a = Some x \<Longrightarrow>
   ht_add_loop m p x = Some (Inr True)"
proof (induction as arbitrary: c p)
  case Nil
  then show ?case by simp
next
  case (Cons b as)
  then show ?case
    by (subst ht_add_loop.simps) (auto simp: hash_at_def split: option.splits)
qed

lemma remove_loop_absent:
  "seg (ht_items h) c p as None \<Longrightarrow> (\<forall>a\<in>set as. hash_at (ht_items h) a \<noteq> Some x) \<Longrightarrow>
   ht_remove_loop h i p x = Some (Inr (ERR ENOENT, h))"
proof (induction as arbitrary: c p)
  case Nil
  then show ?case by (simp add: ht_remove_loop.simps)
next
  case (Cons a as)
  then show ?case
    by (subst ht_remove_loop.simps) (auto simp: hash_at_def split: option.splits)
qed

lemma remove_loop_present:
  "seg (ht_items h) c p as None \<Longrightarrow> a \<in> set as \<Longrightarrow> hash_at (ht_items h) a = Some x \<Longrightarrow>
   (\<forall>b\<in>set as. hash_at (ht_items h) b = Some x \<longrightarrow> b = a) \<Longrightarrow>
   ht_remove_loop h i p x =
     (case TAILQ_REMOVE h i a of
        Inl f \<Rightarrow> Some (Inl f)
      | Inr h1 \<Rightarrow>
          (case free_item h1 a of
             Inl f \<Rightarrow> Some (Inl f)
           | Inr h2 \<Rightarrow> Some (Inr (OK, h2))))"
proof (induction as arbitrary: c p)
  case Nil
  then show ?case by simp
next
  case (Cons b as)
  from Cons.prems(1) obtain eb where
    eb: "p = Some b" "load (ht_items h) b = Some eb"
      "seg (ht_items h) (Next b) (tqe_next eb) as None"
    by (auto split: option.splits)
  show ?case
  proof (cases "b = a")
    case True
    then have "hti_hash eb = x" using eb Cons.prems(3) by (simp add: hash_at_def)
    then show ?thesis using eb True by (subst ht_remove_loop.simps) simp
  next
    case False
    then have ain: "a \<in> set as" using Cons.prems(2) by simp
    have ne: "hti_hash eb \<noteq> x"
      using Cons.prems(4) False eb by (auto simp: hash_at_def)
    have uniq: "\<forall>b\<in>set as. hash_at (ht_items h) b = Some x \<longrightarrow> b = a"
      using Cons.prems(4) by simp
    have "ht_remove_loop h i (tqe_next eb) x =
       (case TAILQ_REMOVE h i a of
          Inl f \<Rightarrow> Some (Inl f)
        | Inr h1 \<Rightarrow>
            (case free_item h1 a of
               Inl f \<Rightarrow> Some (Inl f)
             | Inr h2 \<Rightarrow> Some (Inr (OK, h2))))"
      by (rule Cons.IH[OF eb(3) ain Cons.prems(3) uniq])
    then show ?thesis using eb ne by (subst ht_remove_loop.simps) simp
  qed
qed


lemma hash_at_payload: "hash_at m a = map_option fst (payload m a)"
  by (simp add: hash_at_def payload_def option.map_comp comp_def)

lemma payload_update_links:
  "load m a = Some e \<Longrightarrow> hti_hash e' = hti_hash e \<Longrightarrow> hti_data e' = hti_data e \<Longrightarrow>
   payload (m[a := Some e']) x = payload m x"
  by (auto simp: payload_def load_update dest: load_lt)

lemma lcell_append_Cons: "lcell c (xs @ a # ys) = lcell (Next a) ys"
  by (simp add: lcell_def)

lemma TAILQ_REMOVE_chain:
  assumes ch: "ht_chain h i (xs @ a # ys)" and d: "distinct (xs @ a # ys)"
  shows "\<exists>h1. TAILQ_REMOVE h i a = Inr h1 \<and> ht_chain h1 i (xs @ ys) \<and>
           ht_nentries h1 = ht_nentries h \<and>
           length (ht_entries h1) = length (ht_entries h) \<and>
           length (ht_items h1) = length (ht_items h) \<and>
           (\<forall>j. j \<noteq> i \<longrightarrow> ht_entries h1 ! j = ht_entries h ! j) \<and>
           (\<forall>x. x \<notin> set (xs @ ys) \<longrightarrow> load (ht_items h1) x = load (ht_items h) x) \<and>
           (\<forall>x. payload (ht_items h1) x = payload (ht_items h) x)"
proof -
  define m where "m = ht_items h"
  define E where "E = ht_entries h"
  define c where "c = lcell (Head i) xs"
  from ch have i: "i < length E"
    and sg: "seg m (Head i) (tqh_first (E ! i)) (xs @ a # ys) None"
    and lst: "tqh_last (E ! i) = Some (lcell (Next a) ys)"
    by (simp_all add: ht_chain_def m_def E_def lcell_append_Cons)
  from sg obtain e where
    sx: "seg m (Head i) (tqh_first (E ! i)) xs (Some a)"
    and e: "load m a = Some e" and pe: "tqe_prev e = Some c"
    and sy: "seg m (Next a) (tqe_next e) ys None"
    by (auto simp: seg_append c_def split: option.splits)
  have a_lt: "a < length m" using e by (rule load_lt)
  have axs: "a \<notin> set xs" and ays: "a \<notin> set ys" using d by auto
  define h1 where "h1 =
    (case ys of
       [] \<Rightarrow> h\<lparr>ht_entries := E[i := (E ! i)\<lparr>tqh_last := Some c\<rparr>]\<rparr>
     | b # ys' \<Rightarrow> h\<lparr>ht_items := m[b := Some ((the (load m b))\<lparr>tqe_prev := Some c\<rparr>)]\<rparr>)"
  define m1 where "m1 = ht_items h1"
  define E1 where "E1 = ht_entries h1"
  have sy1: "seg m1 c (tqe_next e) ys None"
  proof (cases ys)
    case Nil
    then show ?thesis using sy by (simp add: m1_def h1_def)
  next
    case (Cons b ys')
    with sy obtain eb where eb: "tqe_next e = Some b" "load m b = Some eb"
      "seg m (Next b) (tqe_next eb) ys' None"
      by (auto split: option.splits)
    have bys': "b \<notin> set ys'" using d Cons by auto
    have "seg (m[b := Some (eb\<lparr>tqe_prev := Some c\<rparr>)]) (Next b) (tqe_next eb) ys' None"
      using eb(3) bys' by (subst seg_frame[where m = m]) (auto simp: load_update)
    then show ?thesis using Cons eb load_lt[OF eb(2)]
      by (simp add: m1_def h1_def load_update)
  qed
  have m1_out: "\<And>x. x \<notin> set ys \<Longrightarrow> load m1 x = load m x"
    by (cases ys) (auto simp: m1_def h1_def m_def load_update)
  have m1_pay: "\<And>x. payload m1 x = payload m x"
  proof (cases ys)
    case Nil
    then show "\<And>x. payload m1 x = payload m x" by (simp add: m1_def h1_def m_def)
  next
    case (Cons b ys')
    with sy obtain eb where eb: "load m b = Some eb" by (auto split: option.splits)
    show "\<And>x. payload m1 x = payload m x" using Cons eb
      by (simp add: m1_def h1_def payload_update_links)
  qed
  have sx1: "seg m1 (Head i) (tqh_first (E ! i)) xs (Some a)"
    using sx d by (subst seg_frame[where m = m]) (auto intro!: m1_out)
  have e1: "load m1 a = Some e" using e ays by (simp add: m1_out)
  have len_m1: "length m1 = length m" by (cases ys) (simp_all add: m1_def h1_def m_def)
  have len_E1: "length E1 = length E" by (cases ys) (simp_all add: E1_def h1_def E_def)
  have E1_first: "tqh_first (E1 ! i) = tqh_first (E ! i)"
    using i by (cases ys) (simp_all add: E1_def h1_def E_def)
  have E1_last: "tqh_last (E1 ! i) = Some (lcell c ys)"
    using i lst by (cases ys) (simp_all add: E1_def h1_def E_def lcell_def)
  have E1_other: "\<And>j. j \<noteq> i \<Longrightarrow> E1 ! j = E ! j"
    by (cases ys) (simp_all add: E1_def h1_def E_def)
  have n1: "ht_nentries h1 = ht_nentries h" by (cases ys) (simp_all add: h1_def)
  have step1: "(case tqe_next e of
                   Some b \<Rightarrow>
                     (case load (ht_items h) b of
                        None \<Rightarrow> Inl InvalidPointer
                      | Some eb \<Rightarrow>
                          Inr (h\<lparr>ht_items := (ht_items h)[b := Some (eb\<lparr>tqe_prev := tqe_prev e\<rparr>)]\<rparr>))
                 | None \<Rightarrow>
                     if i < length (ht_entries h)
                     then Inr (h\<lparr>ht_entries :=
                                 (ht_entries h)[i := (ht_entries h ! i)\<lparr>tqh_last := tqe_prev e\<rparr>]\<rparr>)
                     else Inl OutOfBounds) = Inr h1"
  proof (cases ys)
    case Nil
    then show ?thesis using sy i pe by (simp add: h1_def E_def)
  next
    case (Cons b ys')
    with sy obtain eb where eb: "tqe_next e = Some b" "load m b = Some eb"
      by (auto split: option.splits)
    then show ?thesis using Cons pe by (simp add: h1_def m_def[symmetric])
  qed
  define h2 where "h2 =
    (if xs = [] then h1\<lparr>ht_entries := E1[i := (E1 ! i)\<lparr>tqh_first := tqe_next e\<rparr>]\<rparr>
     else h1\<lparr>ht_items := m1[last xs := Some ((the (load m1 (last xs)))\<lparr>tqe_next := tqe_next e\<rparr>)]\<rparr>)"
  have step2: "store_cell h1 c (tqe_next e) = Inr h2"
  proof (cases "xs = []")
    case True
    then show ?thesis using i len_E1
      by (simp add: store_cell_def c_def lcell_def h2_def E1_def)
  next
    case False
    then have "last xs \<in> set xs" by simp
    from seg_live[OF sx1 this] obtain el where "load m1 (last xs) = Some el" by blast
    then show ?thesis using False
      by (simp add: store_cell_def c_def lcell_def h2_def m1_def)
  qed
  have run: "TAILQ_REMOVE h i a = Inr h2"
    unfolding TAILQ_REMOVE_def using e e1 pe step1 step2
    by (simp add: m_def m1_def)
  define m2 where "m2 = ht_items h2"
  define E2 where "E2 = ht_entries h2"
  have chain2: "seg m2 (Head i) (tqh_first (E2 ! i)) (xs @ ys) None"
  proof (cases "xs = []")
    case True
    then show ?thesis using sy1 i len_E1
      by (simp add: m2_def E2_def h2_def c_def lcell_def m1_def)
  next
    case False
    then have lin: "last xs \<in> set xs" by simp
    from seg_live[OF sx1 lin] obtain el where el: "load m1 (last xs) = Some el" by blast
    have dx: "distinct xs" using d by simp
    have m2: "m2 = m1[last xs := Some (el\<lparr>tqe_next := tqe_next e\<rparr>)]"
      using False el by (simp add: m2_def h2_def)
    have a: "seg m2 (Head i) (tqh_first (E ! i)) xs (tqe_next e)"
      unfolding m2 by (rule seg_set_next_last[OF sx1 False dx el])
    have lys: "last xs \<notin> set ys" using d lin by auto
    have b: "seg m2 (lcell (Head i) xs) (tqe_next e) ys None"
      unfolding m2 using sy1 lys
      by (subst seg_frame[where m = m1]) (auto simp: load_update c_def)
    have "tqh_first (E2 ! i) = tqh_first (E ! i)"
      using False E1_first by (simp add: E2_def h2_def E1_def)
    then show ?thesis using a b by (auto simp: seg_append)
  qed
  have last2: "tqh_last (E2 ! i) = Some (lcell (Head i) (xs @ ys))"
  proof -
    have "tqh_last (E2 ! i) = tqh_last (E1 ! i)"
      using i len_E1 by (simp add: E2_def h2_def E1_def)
    also have "\<dots> = Some (lcell c ys)" by (rule E1_last)
    also have "lcell c ys = lcell (Head i) (xs @ ys)" by (simp add: c_def lcell_def)
    finally show ?thesis .
  qed
  have len_E2: "length E2 = length E" using len_E1 by (simp add: E2_def h2_def E1_def)
  have len_m2: "length m2 = length m" using len_m1 by (simp add: m2_def h2_def m1_def)
  have n2: "ht_nentries h2 = ht_nentries h" using n1 by (simp add: h2_def)
  have E2_other: "\<And>j. j \<noteq> i \<Longrightarrow> E2 ! j = E ! j"
    using E1_other by (simp add: E2_def h2_def E1_def)
  have m2_out: "\<And>x. x \<notin> set (xs @ ys) \<Longrightarrow> load m2 x = load m x"
  proof -
    fix x assume x: "x \<notin> set (xs @ ys)"
    then have "load m2 x = load m1 x"
      by (cases "xs = []") (auto simp: m2_def h2_def m1_def load_update)
    then show "load m2 x = load m x" using x by (simp add: m1_out)
  qed
  have m2_pay: "\<And>x. payload m2 x = payload m x"
  proof -
    fix x
    have "payload m2 x = payload m1 x"
    proof (cases "xs = []")
      case True
      then show ?thesis by (simp add: m2_def h2_def m1_def)
    next
      case False
      then have "last xs \<in> set xs" by simp
      from seg_live[OF sx1 this] obtain el where el: "load m1 (last xs) = Some el" by blast
      show ?thesis using False el by (simp add: m2_def h2_def payload_update_links)
    qed
    then show "payload m2 x = payload m x" by (simp add: m1_pay)
  qed
  have "ht_chain h2 i (xs @ ys)"
    using chain2 last2 i len_E2 by (simp add: ht_chain_def m2_def E2_def E_def)
  then show ?thesis
    using run n2 len_E2 len_m2 E2_other m2_out m2_pay
    by (auto simp: m2_def E2_def m_def E_def)
qed


lemma ht_slot_lt: "ht_sized h \<Longrightarrow> ht_slot h x < length (ht_entries h)"
proof -
  assume s: "ht_sized h"
  then have "0 < unat (ht_nentries h)" by (simp add: ht_sized_def unat_gt_0)
  then have "unat (ucast x :: 64 word) mod unat (ht_nentries h) < unat (ht_nentries h)"
    by simp
  then show ?thesis using s by (simp add: ht_slot_def ht_sized_def unat_mod)
qed

lemma ht_inv_sized: "ht_inv h cs \<Longrightarrow> ht_sized h"
  by (simp add: ht_inv_def)

lemma ht_inv_chain:
  "ht_inv h cs \<Longrightarrow> i < length (ht_entries h) \<Longrightarrow> ht_chain h i (cs i)"
  by (simp add: ht_inv_def inv_placement_def)

lemma ht_inv_distinct:
  "ht_inv h cs \<Longrightarrow> i < length (ht_entries h) \<Longrightarrow> distinct (cs i)"
  by (simp add: ht_inv_def inv_placement_def)

lemma ht_inv_mem:
  "ht_inv h cs \<Longrightarrow> load (ht_items h) a = Some e \<Longrightarrow> i < length (ht_entries h) \<Longrightarrow>
   (a \<in> set (cs i)) = (i = ht_slot h (hti_hash e))"
  by (simp add: ht_inv_def inv_placement_def)

lemma ht_inv_hashes:
  "ht_inv h cs \<Longrightarrow> i < length (ht_entries h) \<Longrightarrow> distinct (map (hash_at (ht_items h)) (cs i))"
  by (simp add: ht_inv_def inv_unique_def)

lemma ht_chain_live:
  "ht_chain h i as \<Longrightarrow> a \<in> set as \<Longrightarrow> \<exists>e. load (ht_items h) a = Some e"
  unfolding ht_chain_def by (blast dest: seg_live)

lemma ht_inv_disjoint:
  assumes "ht_inv h cs" "i < length (ht_entries h)" "j < length (ht_entries h)"
    "a \<in> set (cs i)" "a \<in> set (cs j)"
  shows "i = j"
proof -
  from ht_chain_live[OF ht_inv_chain[OF assms(1,2)] assms(4)]
  obtain e where e: "load (ht_items h) a = Some e" by blast
  show ?thesis
    using ht_inv_mem[OF assms(1) e assms(2)] ht_inv_mem[OF assms(1) e assms(3)] assms(4,5)
    by simp
qed

lemma ht_inv_home:
  assumes "ht_inv h cs" "load (ht_items h) a = Some e"
  shows "a \<in> set (cs (ht_slot h (hti_hash e)))"
  using ht_inv_mem[OF assms ht_slot_lt[OF ht_inv_sized[OF assms(1)]]] by simp

lemma ht_chain_frame:
  assumes "ht_chain h i as" "length (ht_entries h') = length (ht_entries h)"
    "ht_entries h' ! i = ht_entries h ! i"
    "\<And>x. x \<in> set as \<Longrightarrow> load (ht_items h') x = load (ht_items h) x"
  shows "ht_chain h' i as"
proof -
  have "seg (ht_items h') (Head i) (tqh_first (ht_entries h ! i)) as None =
        seg (ht_items h) (Head i) (tqh_first (ht_entries h ! i)) as None"
    by (rule seg_frame) (rule assms(4))
  then show ?thesis using assms(1,2,3) by (simp add: ht_chain_def)
qed

lemma payload_hash: "payload m x = payload m' x \<Longrightarrow> hash_at m x = hash_at m' x"
  by (simp add: hash_at_payload)

lemma distinct_map_remove1:
  "distinct (map f xs) \<Longrightarrow> distinct (map f (remove1 a xs))"
proof -
  assume "distinct (map f xs)"
  then have dx: "distinct xs" and inj: "inj_on f (set xs)" by (simp_all add: distinct_map)
  have "inj_on f (set (remove1 a xs))"
    by (rule inj_on_subset[OF inj set_remove1_subset])
  then show ?thesis using dx by (simp add: distinct_map)
qed

lemma slot_cong: "ht_nentries h' = ht_nentries h \<Longrightarrow> ht_slot h' x = ht_slot h x"
  by (simp add: ht_slot_def)

lemma remove_inv:
  assumes inv: "ht_inv h cs" and i: "i < length (ht_entries h)" and a: "a \<in> set (cs i)"
  shows "\<exists>h1 h2. TAILQ_REMOVE h i a = Inr h1 \<and> free_item h1 a = Inr h2 \<and>
           ht_inv h2 (cs(i := remove1 a (cs i))) \<and>
           load (ht_items h2) a = None \<and>
           (\<forall>x. x \<noteq> a \<longrightarrow> payload (ht_items h2) x = payload (ht_items h) x) \<and>
           length (ht_items h2) = length (ht_items h) \<and>
           ht_nentries h2 = ht_nentries h \<and>
           length (ht_entries h2) = length (ht_entries h)"
proof -
  from a obtain xs ys where split: "cs i = xs @ a # ys" by (auto simp: in_set_conv_decomp)
  have d: "distinct (xs @ a # ys)" using ht_inv_distinct[OF inv i] split by simp
  have ch: "ht_chain h i (xs @ a # ys)" using ht_inv_chain[OF inv i] split by simp
  have rm: "remove1 a (cs i) = xs @ ys" using d split by (simp add: remove1_append)
  from TAILQ_REMOVE_chain[OF ch d] obtain h1 where
    run: "TAILQ_REMOVE h i a = Inr h1" and ch1: "ht_chain h1 i (xs @ ys)"
    and n1: "ht_nentries h1 = ht_nentries h"
    and lE1: "length (ht_entries h1) = length (ht_entries h)"
    and lm1: "length (ht_items h1) = length (ht_items h)"
    and E1: "\<And>j. j \<noteq> i \<Longrightarrow> ht_entries h1 ! j = ht_entries h ! j"
    and out1: "\<And>x. x \<notin> set (xs @ ys) \<Longrightarrow> load (ht_items h1) x = load (ht_items h) x"
    and pay1: "\<And>x. payload (ht_items h1) x = payload (ht_items h) x"
    by blast
  from ht_chain_live[OF ch] obtain e where e: "load (ht_items h) a = Some e" by auto
  have anot: "a \<notin> set (xs @ ys)" using d by auto
  have e1: "load (ht_items h1) a = Some e" using out1[OF anot] e by simp
  define h2 where "h2 = h1\<lparr>ht_items := (ht_items h1)[a := None]\<rparr>"
  have fr: "free_item h1 a = Inr h2" using e1 by (simp add: free_item_def h2_def)
  have gone: "load (ht_items h2) a = None"
    using load_lt[OF e1] by (simp add: h2_def load_update)
  have keep: "\<And>x. x \<noteq> a \<Longrightarrow> load (ht_items h2) x = load (ht_items h1) x"
    by (simp add: h2_def load_update)
  have pay2: "\<And>x. x \<noteq> a \<Longrightarrow> payload (ht_items h2) x = payload (ht_items h) x"
    using keep pay1 by (simp add: payload_def)
  have n2: "ht_nentries h2 = ht_nentries h" using n1 by (simp add: h2_def)
  have lE2: "length (ht_entries h2) = length (ht_entries h)" using lE1 by (simp add: h2_def)
  have lm2: "length (ht_items h2) = length (ht_items h)" using lm1 by (simp add: h2_def)
  have E2: "ht_entries h2 = ht_entries h1" by (simp add: h2_def)
  define cs' where "cs' = cs(i := remove1 a (cs i))"
  have sized: "ht_sized h2" using ht_inv_sized[OF inv] n2 lE2 by (simp add: ht_sized_def)
  have chains: "ht_chain h2 j (cs' j) \<and> distinct (cs' j)" if j: "j < length (ht_entries h2)" for j
  proof (cases "j = i")
    case True
    have "ht_chain h2 i (xs @ ys)"
    proof (rule ht_chain_frame[OF ch1])
      show "length (ht_entries h2) = length (ht_entries h1)" by (simp add: E2)
      show "ht_entries h2 ! i = ht_entries h1 ! i" by (simp add: E2)
    next
      fix x assume "x \<in> set (xs @ ys)"
      then have "x \<noteq> a" using anot by auto
      then show "load (ht_items h2) x = load (ht_items h1) x" by (rule keep)
    qed
    then show ?thesis using True d rm by (simp add: cs'_def)
  next
    case False
    have jn: "j < length (ht_entries h)" using j lE2 by simp
    have "ht_chain h2 j (cs j)"
    proof (rule ht_chain_frame[OF ht_inv_chain[OF inv jn] lE2])
      show "ht_entries h2 ! j = ht_entries h ! j" using False by (simp add: E2 E1)
    next
      fix x assume x: "x \<in> set (cs j)"
      then have "x \<notin> set (cs i)" using ht_inv_disjoint[OF inv jn i x] False by auto
      then have "x \<notin> set (xs @ ys)" and "x \<noteq> a" using split by auto
      then show "load (ht_items h2) x = load (ht_items h) x" by (simp add: keep out1)
    qed
    then show ?thesis using False ht_inv_distinct[OF inv jn] by (simp add: cs'_def)
  qed
  have mem: "(x \<in> set (cs' j)) = (j = ht_slot h2 (hti_hash e'))"
    if x: "load (ht_items h2) x = Some e'" and j: "j < length (ht_entries h2)" for x e' j
  proof -
    have xa: "x \<noteq> a" using x gone by auto
    have "payload (ht_items h) x = Some (hti_hash e', hti_data e')"
      using pay2[OF xa] x by (simp add: payload_def)
    then obtain e0 where e0: "load (ht_items h) x = Some e0" "hti_hash e0 = hti_hash e'"
      by (auto simp: payload_def)
    have jn: "j < length (ht_entries h)" using j lE2 by simp
    have "(x \<in> set (cs j)) = (j = ht_slot h (hti_hash e'))"
      using ht_inv_mem[OF inv e0(1) jn] e0(2) by simp
    moreover have "(x \<in> set (cs' j)) = (x \<in> set (cs j))"
      using xa ht_inv_distinct[OF inv i] by (simp add: cs'_def)
    ultimately show ?thesis by (simp add: slot_cong[OF n2])
  qed
  have uniq: "distinct (map (hash_at (ht_items h2)) (cs' j))" if j: "j < length (ht_entries h2)" for j
  proof -
    have jn: "j < length (ht_entries h)" using j lE2 by simp
    have sub: "set (cs' j) \<subseteq> set (cs j) - {a}"
    proof (cases "j = i")
      case True
      then show ?thesis using ht_inv_distinct[OF inv i] by (auto simp: cs'_def)
    next
      case False
      then show ?thesis using ht_inv_disjoint[OF inv jn i _ a] by (auto simp: cs'_def)
    qed
    have "map (hash_at (ht_items h2)) (cs' j) = map (hash_at (ht_items h)) (cs' j)"
    proof (rule map_cong[OF refl])
      fix x assume "x \<in> set (cs' j)"
      then have "x \<noteq> a" using sub by auto
      then show "hash_at (ht_items h2) x = hash_at (ht_items h) x"
        by (intro payload_hash pay2)
    qed
    moreover have "distinct (map (hash_at (ht_items h)) (cs' j))"
      using ht_inv_hashes[OF inv jn] by (cases "j = i") (simp_all add: cs'_def distinct_map_remove1)
    ultimately show ?thesis by (simp only:)
  qed
  have "ht_inv h2 cs'"
    unfolding ht_inv_def inv_placement_def inv_unique_def
    using sized chains mem uniq by blast
  then show ?thesis
    using run fr gone pay2 lm2 n2 lE2 unfolding cs'_def by blast
qed


lemma payload_append:
  "payload (m @ [Some e]) y =
     (if y = length m then Some (hti_hash e, hti_data e) else payload m y)"
  by (simp add: payload_def load_append)

lemma add_inv:
  assumes inv: "ht_inv h cs"
    and abs: "\<forall>a\<in>set (cs (ht_slot h x)). hash_at (ht_items h) a \<noteq> Some x"
  shows "\<exists>h'. ht_add h x v = Some (Inr (OK, h')) \<and>
           ht_inv h' (cs(ht_slot h x := cs (ht_slot h x) @ [length (ht_items h)])) \<and>
           payload (ht_items h') (length (ht_items h)) = Some (x, v) \<and>
           (\<forall>y. y \<noteq> length (ht_items h) \<longrightarrow>
                payload (ht_items h') y = payload (ht_items h) y) \<and>
           length (ht_items h') = Suc (length (ht_items h)) \<and>
           ht_nentries h' = ht_nentries h \<and>
           length (ht_entries h') = length (ht_entries h)"
proof -
  define i where "i = ht_slot h x"
  define m where "m = ht_items h"
  define E where "E = ht_entries h"
  define a where "a = length m"
  define as where "as = cs i"
  define c where "c = lcell (Head i) as"
  define e1 :: "'a ht_item" where
    "e1 = \<lparr>hti_hash = x, hti_data = v, tqe_next = None, tqe_prev = Some c\<rparr>"
  define m1 where "m1 = m @ [Some e1]"
  define m2 where "m2 =
    (if as = [] then m1 else m1[last as := Some ((the (load m (last as)))\<lparr>tqe_next := Some a\<rparr>)])"
  define E2 where "E2 =
    (if as = [] then E[i := (E ! i)\<lparr>tqh_first := Some a, tqh_last := Some (Next a)\<rparr>]
     else E[i := (E ! i)\<lparr>tqh_last := Some (Next a)\<rparr>])"
  have sized: "ht_sized h" by (rule ht_inv_sized[OF inv])
  have nz: "ht_nentries h \<noteq> 0" using sized by (simp add: ht_sized_def)
  have i: "i < length E" unfolding i_def E_def by (rule ht_slot_lt[OF sized])
  have ch: "ht_chain h i as" unfolding as_def using ht_inv_chain[OF inv] i by (simp add: E_def)
  have das: "distinct as" unfolding as_def using ht_inv_distinct[OF inv] i by (simp add: E_def)
  from ch have sg: "seg m (Head i) (tqh_first (E ! i)) as None"
    and lst: "tqh_last (E ! i) = Some c"
    by (simp_all add: ht_chain_def m_def E_def c_def)
  have live: "\<And>y j. j < length E \<Longrightarrow> y \<in> set (cs j) \<Longrightarrow> y < a"
  proof -
    fix y j assume "j < length E" "y \<in> set (cs j)"
    then obtain e where "load m y = Some e"
      using ht_chain_live[OF ht_inv_chain[OF inv]] by (auto simp: E_def m_def)
    then show "y < a" unfolding a_def by (rule load_lt)
  qed
  have as_lt: "\<And>y. y \<in> set as \<Longrightarrow> y < a" using live[OF i] by (simp add: as_def)
  have loop: "ht_add_loop m (tqh_first (E ! i)) x = Some (Inr False)"
    using add_loop_absent[OF sg] abs by (simp add: as_def i_def m_def)
  have run: "\<exists>h'. ht_add h x v = Some (Inr (OK, h')) \<and> ht_items h' = m2 \<and>
               ht_entries h' = E2 \<and> ht_nentries h' = ht_nentries h"
  proof (cases "as = []")
    case True
    then have "c = Head i" by (simp add: c_def lcell_def)
    then show ?thesis
      using True nz i loop lst
      unfolding ht_add_def i_def m_def E_def
      by (simp add: l9p_calloc_def load_append load_update TAILQ_INSERT_TAIL_def Let_def
          store_cell_def m2_def E2_def m1_def e1_def a_def i_def m_def E_def)
  next
    case False
    then have cl: "c = Next (last as)" by (simp add: c_def lcell_def)
    have "last as \<in> set as" using False by simp
    with seg_live[OF sg] obtain el where el: "load m (last as) = Some el" by blast
    have ne: "last as \<noteq> length m" using load_lt[OF el] by simp
    show ?thesis
      using False nz i loop lst cl el ne
      unfolding ht_add_def i_def m_def E_def
      by (simp add: l9p_calloc_def load_append load_update TAILQ_INSERT_TAIL_def Let_def
          store_cell_def m2_def E2_def m1_def e1_def a_def i_def m_def E_def)
  qed
  then obtain h' where h': "ht_add h x v = Some (Inr (OK, h'))" "ht_items h' = m2"
    "ht_entries h' = E2" "ht_nentries h' = ht_nentries h"
    by blast
  have lE2: "length E2 = length E" by (simp add: E2_def)
  have lm2: "length m2 = Suc (length m)" by (simp add: m2_def m1_def)
  have E2_other: "\<And>j. j \<noteq> i \<Longrightarrow> E2 ! j = E ! j" by (simp add: E2_def)
  have m1_old: "\<And>y. y \<noteq> a \<Longrightarrow> load m1 y = load m y"
    by (simp add: m1_def load_append a_def)
  have m2_a: "load m2 a = Some e1"
  proof (cases "as = []")
    case True
    then show ?thesis by (simp add: m2_def m1_def load_append a_def)
  next
    case False
    then have "last as < a" using as_lt by simp
    then show ?thesis using False by (simp add: m2_def m1_def load_append load_update a_def)
  qed
  have m2_out: "\<And>y. y \<noteq> a \<Longrightarrow> y \<notin> set as \<Longrightarrow> load m2 y = load m y"
  proof -
    fix y assume y: "y \<noteq> a" "y \<notin> set as"
    show "load m2 y = load m y"
    proof (cases "as = []")
      case True
      then show ?thesis using y by (simp add: m2_def m1_old)
    next
      case False
      then have "y \<noteq> last as" using y(2) by auto
      then show ?thesis using False y by (simp add: m2_def load_update m1_old)
    qed
  qed
  have pay_new: "payload m2 a = Some (x, v)" using m2_a by (simp add: payload_def e1_def)
  have pay_old: "\<And>y. y \<noteq> a \<Longrightarrow> payload m2 y = payload m y"
  proof -
    fix y assume y: "y \<noteq> a"
    show "payload m2 y = payload m y"
    proof (cases "as = []")
      case True
      then show ?thesis using y by (simp add: m2_def m1_def payload_append a_def)
    next
      case False
      then have lin: "last as \<in> set as" by simp
      with seg_live[OF sg] obtain el where el: "load m (last as) = Some el" by blast
      have el1: "load m1 (last as) = Some el" using el as_lt[OF lin] by (simp add: m1_old)
      have "payload m2 y = payload m1 y"
        using False el el1 by (simp add: m2_def payload_update_links)
      then show ?thesis using y by (simp add: m1_def payload_append a_def)
    qed
  qed
  define cs' where "cs' = cs(i := as @ [a])"
  have chain_i: "seg m2 (Head i) (tqh_first (E2 ! i)) (as @ [a]) None"
  proof (cases "as = []")
    case True
    then show ?thesis using m2_a i by (simp add: E2_def e1_def c_def lcell_def)
  next
    case False
    then have lin: "last as \<in> set as" by simp
    with seg_live[OF sg] obtain el where el: "load m (last as) = Some el" by blast
    have el1: "load m1 (last as) = Some el" using el as_lt[OF lin] by (simp add: m1_old)
    have "\<And>y. y \<in> set as \<Longrightarrow> load m1 y = load m y"
      using as_lt by (intro m1_old) auto
    then have sg1: "seg m1 (Head i) (tqh_first (E ! i)) as None"
      using sg by (subst seg_frame[where m = m]) auto
    have m2eq: "m2 = m1[last as := Some (el\<lparr>tqe_next := Some a\<rparr>)]"
      using False el by (simp add: m2_def)
    have "seg m2 (Head i) (tqh_first (E ! i)) as (Some a)"
      unfolding m2eq by (rule seg_set_next_last[OF sg1 False das el1])
    moreover have "tqh_first (E2 ! i) = tqh_first (E ! i)" using False i by (simp add: E2_def)
    ultimately show ?thesis using m2_a by (simp add: seg_append e1_def c_def)
  qed
  have last_i: "tqh_last (E2 ! i) = Some (lcell (Head i) (as @ [a]))"
    using i by (simp add: E2_def lcell_def)
  have sized': "ht_sized h'" using sized h' lE2 by (simp add: ht_sized_def E_def)
  have chains: "ht_chain h' j (cs' j) \<and> distinct (cs' j)" if j: "j < length (ht_entries h')" for j
  proof (cases "j = i")
    case True
    have "a \<notin> set as" using as_lt by auto
    then show ?thesis using True chain_i last_i i lE2 das h'
      by (simp add: ht_chain_def cs'_def)
  next
    case False
    have jn: "j < length (ht_entries h)" using j h' lE2 by (simp add: E_def)
    have "ht_chain h' j (cs j)"
    proof (rule ht_chain_frame[OF ht_inv_chain[OF inv jn]])
      show "length (ht_entries h') = length (ht_entries h)" using h' lE2 by (simp add: E_def)
      show "ht_entries h' ! j = ht_entries h ! j" using False h' E2_other by (simp add: E_def)
    next
      fix y assume y: "y \<in> set (cs j)"
      have "y \<notin> set (cs i)" using ht_inv_disjoint[OF inv jn _ y] i False by (auto simp: E_def)
      moreover have "y \<noteq> a" using live[of j y] jn y by (auto simp: E_def)
      ultimately show "load (ht_items h') y = load (ht_items h) y"
        using h' by (simp add: m2_out as_def m_def)
    qed
    then show ?thesis using False ht_inv_distinct[OF inv jn] by (simp add: cs'_def)
  qed
  have slot': "\<And>y. ht_slot h' y = ht_slot h y" using h'(4) by (rule slot_cong)
  have mem: "(y \<in> set (cs' j)) = (j = ht_slot h' (hti_hash e'))"
    if y: "load (ht_items h') y = Some e'" and j: "j < length (ht_entries h')" for y e' j
  proof (cases "y = a")
    case True
    then have "e' = e1" using y h' m2_a by simp
    then have hx: "hti_hash e' = x" by (simp add: e1_def)
    have jn: "j < length E" using j h' lE2 by simp
    have "a \<notin> set (cs j)" using live[OF jn] by auto
    then show ?thesis using True hx by (auto simp: cs'_def slot' i_def)
  next
    case False
    have "payload m y = Some (hti_hash e', hti_data e')"
      using pay_old[OF False] y h' by (simp add: payload_def)
    then obtain e0 where e0: "load (ht_items h) y = Some e0" "hti_hash e0 = hti_hash e'"
      by (auto simp: payload_def m_def)
    have jn: "j < length (ht_entries h)" using j h' lE2 by (simp add: E_def)
    have "(y \<in> set (cs j)) = (j = ht_slot h (hti_hash e'))"
      using ht_inv_mem[OF inv e0(1) jn] e0(2) by simp
    moreover have "(y \<in> set (cs' j)) = (y \<in> set (cs j))"
      using False by (simp add: cs'_def as_def)
    ultimately show ?thesis by (simp add: slot')
  qed
  have uniq: "distinct (map (hash_at (ht_items h')) (cs' j))"
    if j: "j < length (ht_entries h')" for j
  proof -
    have jn: "j < length (ht_entries h)" using j h' lE2 by (simp add: E_def)
    have old: "map (hash_at m2) (cs j) = map (hash_at m) (cs j)"
    proof (rule map_cong[OF refl])
      fix y assume "y \<in> set (cs j)"
      then have "y \<noteq> a" using live[of j y] jn by (auto simp: E_def)
      then show "hash_at m2 y = hash_at m y" by (intro payload_hash pay_old)
    qed
    have dold: "distinct (map (hash_at m) (cs j))"
      using ht_inv_hashes[OF inv jn] by (simp add: m_def)
    have dnew: "distinct (map (hash_at m2) (cs j))" unfolding old by (rule dold)
    show ?thesis
    proof (cases "j = i")
      case True
      have "hash_at m2 a = Some x" using pay_new by (simp add: hash_at_payload)
      moreover have old_i: "map (hash_at m2) as = map (hash_at m) as"
        using old True by (simp add: as_def)
      have nx: "Some x \<notin> set (map (hash_at m) as)"
        using abs by (auto simp: as_def i_def m_def)
      have "Some x \<notin> set (map (hash_at m2) as)"
        unfolding old_i by (rule nx)
      ultimately show ?thesis using True dnew h'
        by (simp add: cs'_def as_def)
    next
      case False
      then show ?thesis using dnew h' by (simp add: cs'_def)
    qed
  qed
  have "ht_inv h' cs'"
    unfolding ht_inv_def inv_placement_def inv_unique_def
    using sized' chains mem uniq by blast
  then show ?thesis
    using h' pay_new pay_old lm2 lE2
    unfolding cs'_def as_def i_def a_def m_def E_def by auto
qed



lemma init_inv: "sz \<noteq> 0 \<Longrightarrow> ht_inv (ht_init sz) (\<lambda>_. [])"
  by (simp add: ht_inv_def ht_sized_def inv_placement_def inv_unique_def ht_init_def
      ht_chain_def lcell_def load_def)

lemma ht_inv_present:
  assumes inv: "ht_inv h cs" and p: "payload (ht_items h) a = Some (x, v)"
  shows "a \<in> set (cs (ht_slot h x))" "hash_at (ht_items h) a = Some x"
    "\<forall>b\<in>set (cs (ht_slot h x)). hash_at (ht_items h) b = Some x \<longrightarrow> b = a"
proof -
  from p obtain e where e: "load (ht_items h) a = Some e" "hti_hash e = x" "hti_data e = v"
    by (auto simp: payload_def)
  have i: "ht_slot h x < length (ht_entries h)" by (rule ht_slot_lt[OF ht_inv_sized[OF inv]])
  show ain: "a \<in> set (cs (ht_slot h x))" using ht_inv_home[OF inv e(1)] e(2) by simp
  show ha: "hash_at (ht_items h) a = Some x" using e by (simp add: hash_at_def)
  have "inj_on (hash_at (ht_items h)) (set (cs (ht_slot h x)))"
    using ht_inv_hashes[OF inv i] by (simp add: distinct_map)
  then show "\<forall>b\<in>set (cs (ht_slot h x)). hash_at (ht_items h) b = Some x \<longrightarrow> b = a"
    using ain ha by (simp add: inj_on_def)
qed

lemma ht_inv_first:
  assumes inv: "ht_inv h cs"
  shows "seg (ht_items h) (Head (ht_slot h x))
           (tqh_first (ht_entries h ! ht_slot h x)) (cs (ht_slot h x)) None"
  using ht_inv_chain[OF inv ht_slot_lt[OF ht_inv_sized[OF inv]]] by (simp add: ht_chain_def)

lemma ht_find_present:
  assumes inv: "ht_inv h cs" and p: "payload (ht_items h) a = Some (x, v)"
  shows "ht_find h x = Some (Inr v)"
proof -
  from p obtain e where e: "load (ht_items h) a = Some e" "hti_hash e = x" "hti_data e = v"
    by (auto simp: payload_def)
  have sized: "ht_sized h" by (rule ht_inv_sized[OF inv])
  have "ht_find_loop (ht_items h) (tqh_first (ht_entries h ! ht_slot h x)) (hti_hash e) =
          Some (Inr (hti_data e))"
    using find_loop_present[OF ht_inv_first[OF inv] ht_inv_present(1)[OF inv p] e(1)]
      ht_inv_present(3)[OF inv p] e(2) by simp
  then show ?thesis using sized ht_slot_lt[OF sized, of x] e
    by (simp add: ht_find_def ht_sized_def)
qed

lemma ht_find_absent:
  assumes inv: "ht_inv h cs" and abs: "\<forall>a. hash_at (ht_items h) a \<noteq> Some x"
  shows "ht_find h x = Some (Inr None)"
proof -
  have sized: "ht_sized h" by (rule ht_inv_sized[OF inv])
  have "ht_find_loop (ht_items h) (tqh_first (ht_entries h ! ht_slot h x)) x = Some (Inr None)"
    using find_loop_absent[OF ht_inv_first[OF inv]] abs by simp
  then show ?thesis using sized ht_slot_lt[OF sized, of x]
    by (simp add: ht_find_def ht_sized_def)
qed

lemma ht_add_present:
  assumes inv: "ht_inv h cs" and p: "hash_at (ht_items h) a = Some x"
  shows "ht_add h x v = Some (Inr (ERR EEXIST, h))"
proof -
  from p obtain w where w: "payload (ht_items h) a = Some (x, w)"
    by (auto simp: hash_at_def payload_def)
  have sized: "ht_sized h" by (rule ht_inv_sized[OF inv])
  have "ht_add_loop (ht_items h) (tqh_first (ht_entries h ! ht_slot h x)) x = Some (Inr True)"
    by (rule add_loop_present[OF ht_inv_first[OF inv] ht_inv_present(1)[OF inv w] p])
  then show ?thesis using sized ht_slot_lt[OF sized, of x]
    by (simp add: ht_add_def ht_sized_def)
qed

lemma ht_add_absent:
  assumes inv: "ht_inv h cs" and abs: "\<forall>a. hash_at (ht_items h) a \<noteq> Some x"
  shows "\<exists>h'. ht_add h x v = Some (Inr (OK, h')) \<and>
           ht_inv h' (cs(ht_slot h x := cs (ht_slot h x) @ [length (ht_items h)])) \<and>
           payload (ht_items h') (length (ht_items h)) = Some (x, v) \<and>
           (\<forall>y. y \<noteq> length (ht_items h) \<longrightarrow>
                payload (ht_items h') y = payload (ht_items h) y) \<and>
           length (ht_items h') = Suc (length (ht_items h)) \<and>
           ht_nentries h' = ht_nentries h \<and>
           length (ht_entries h') = length (ht_entries h)"
  using add_inv[OF inv] abs by simp

lemma ht_remove_absent:
  assumes inv: "ht_inv h cs" and abs: "\<forall>a. hash_at (ht_items h) a \<noteq> Some x"
  shows "ht_remove h x = Some (Inr (ERR ENOENT, h))"
proof -
  have sized: "ht_sized h" by (rule ht_inv_sized[OF inv])
  have "ht_remove_loop h (ht_slot h x) (tqh_first (ht_entries h ! ht_slot h x)) x =
          Some (Inr (ERR ENOENT, h))"
    using remove_loop_absent[OF ht_inv_first[OF inv]] abs by simp
  then show ?thesis using sized ht_slot_lt[OF sized, of x]
    by (simp add: ht_remove_def ht_sized_def)
qed

lemma ht_remove_present:
  assumes inv: "ht_inv h cs" and p: "hash_at (ht_items h) a = Some x"
  shows "\<exists>h'. ht_remove h x = Some (Inr (OK, h')) \<and>
           ht_inv h' (cs(ht_slot h x := remove1 a (cs (ht_slot h x)))) \<and>
           load (ht_items h') a = None \<and>
           (\<forall>y. y \<noteq> a \<longrightarrow> payload (ht_items h') y = payload (ht_items h) y) \<and>
           length (ht_items h') = length (ht_items h) \<and>
           ht_nentries h' = ht_nentries h \<and>
           length (ht_entries h') = length (ht_entries h)"
proof -
  from p obtain w where w: "payload (ht_items h) a = Some (x, w)"
    by (auto simp: hash_at_def payload_def)
  have sized: "ht_sized h" by (rule ht_inv_sized[OF inv])
  have i: "ht_slot h x < length (ht_entries h)" by (rule ht_slot_lt[OF sized])
  note pr = ht_inv_present[OF inv w]
  from remove_inv[OF inv i pr(1)] obtain h1 h2 where
    r: "TAILQ_REMOVE h (ht_slot h x) a = Inr h1" "free_item h1 a = Inr h2"
    and rest: "ht_inv h2 (cs(ht_slot h x := remove1 a (cs (ht_slot h x))))"
      "load (ht_items h2) a = None"
      "\<forall>y. y \<noteq> a \<longrightarrow> payload (ht_items h2) y = payload (ht_items h) y"
      "length (ht_items h2) = length (ht_items h)"
      "ht_nentries h2 = ht_nentries h"
      "length (ht_entries h2) = length (ht_entries h)"
    by blast
  have "ht_remove_loop h (ht_slot h x) (tqh_first (ht_entries h ! ht_slot h x)) x =
          Some (Inr (OK, h2))"
    using remove_loop_present[OF ht_inv_first[OF inv] pr(1) p pr(3)] r by simp
  then have "ht_remove h x = Some (Inr (OK, h2))"
    using sized i by (simp add: ht_remove_def ht_sized_def)
  then show ?thesis using rest by blast
qed


lemma iter_ok_step:
  assumes ok: "iter_ok h it"
    and len: "length (ht_items h) \<le> length (ht_items h')"
    and lE: "length (ht_entries h') = length (ht_entries h)"
    and n: "ht_nentries h' = ht_nentries h"
    and pay: "\<And>y. y < length (ht_items h) \<Longrightarrow>
               load (ht_items h') y = None \<or> payload (ht_items h') y = payload (ht_items h) y"
  shows "iter_ok h' it"
proof (cases "htit_cursor it")
  case None
  then show ?thesis by (simp add: iter_ok_def)
next
  case (Some a)
  from ok Some have a: "a < length (ht_items h)"
    and sl: "unat (htit_slot it) < length (ht_entries h)"
    and home: "\<And>e. load (ht_items h) a = Some e \<Longrightarrow> ht_slot h (hti_hash e) = unat (htit_slot it)"
    by (auto simp: iter_ok_def)
  have "ht_slot h' (hti_hash e') = unat (htit_slot it)" if e': "load (ht_items h') a = Some e'" for e'
  proof -
    from pay[OF a] e' have "payload (ht_items h) a = Some (hti_hash e', hti_data e')"
      by (simp add: payload_def)
    then obtain e where "load (ht_items h) a = Some e" "hti_hash e = hti_hash e'"
      by (auto simp: payload_def)
    then show ?thesis using home by (simp add: slot_cong[OF n])
  qed
  then show ?thesis using Some a sl len lE by (simp add: iter_ok_def split: option.splits)
qed

lemma iter_ok_removed:
  assumes ok: "iter_ok h it"
    and gone: "load (ht_items h') a = None"
    and pay: "\<forall>y. y \<noteq> a \<longrightarrow> payload (ht_items h') y = payload (ht_items h) y"
    and len: "length (ht_items h') = length (ht_items h)"
    and lE: "length (ht_entries h') = length (ht_entries h)"
    and n: "ht_nentries h' = ht_nentries h"
  shows "iter_ok h' it"
proof (rule iter_ok_step[OF ok _ lE n])
  show "length (ht_items h) \<le> length (ht_items h')" using len by simp
next
  fix y
  show "load (ht_items h') y = None \<or> payload (ht_items h') y = payload (ht_items h) y"
    using gone pay by (cases "y = a") simp_all
qed

lemma seg_next_in:
  "seg m c p as None \<Longrightarrow> a \<in> set as \<Longrightarrow> load m a = Some e \<Longrightarrow> tqe_next e = Some b \<Longrightarrow>
   b \<in> set as"
proof (induction as arbitrary: c p)
  case Nil
  then show ?case by simp
next
  case (Cons a' as)
  from Cons.prems(1) obtain e' where e': "load m a' = Some e'"
    "seg m (Next a') (tqe_next e') as None"
    by (auto split: option.splits)
  show ?case
  proof (cases "a = a'")
    case True
    then have "seg m (Next a') (Some b) as None" using e' Cons.prems(3,4) by simp
    then show ?thesis by (cases as) auto
  next
    case False
    then have "a \<in> set as" using Cons.prems(2) by simp
    from Cons.IH[OF e'(2) this Cons.prems(3,4)] show ?thesis by simp
  qed
qed

lemma next_iter_ok:
  "ht_inv h cs \<Longrightarrow> iter_ok h iter \<Longrightarrow> ht_next h iter = Inr (v, it') \<Longrightarrow> iter_ok h it'"
proof (induction h iter rule: ht_next.induct)
  case (1 h iter)
  note inv = "1.prems"(1) and ok = "1.prems"(2) and run = "1.prems"(3)
  show ?case
  proof (cases "htit_slot iter = ht_nentries h")
    case True
    then show ?thesis using run ok by (subst (asm) ht_next.simps) simp
  next
    case ne: False
    show ?thesis
    proof (cases "htit_cursor iter")
      case None
      have "iter_ok h (iter\<lparr>htit_slot := htit_slot iter + 1\<rparr>)"
        using None by (simp add: iter_ok_def)
      moreover have "ht_next h (iter\<lparr>htit_slot := htit_slot iter + 1\<rparr>) = Inr (v, it')"
        using run ne None by (subst (asm) ht_next.simps) simp
      ultimately show ?thesis using "1.IH"(1)[OF ne None inv] by simp
    next
      case (Some a)
      show ?thesis
      proof (cases "load (ht_items h) a")
        case None
        then show ?thesis using run ne Some by (subst (asm) ht_next.simps) simp
      next
        case (Some e)
        note e = Some
        show ?thesis
        proof (cases "tqe_next e")
          case None
          have "iter_ok h (iter\<lparr>htit_cursor := None, htit_slot := htit_slot iter + 1\<rparr>)"
            by (simp add: iter_ok_def)
          moreover have "ht_next h (iter\<lparr>htit_cursor := None, htit_slot := htit_slot iter + 1\<rparr>)
                           = Inr (v, it')"
            using run ne \<open>htit_cursor iter = Some a\<close> e None
            by (subst (asm) ht_next.simps) simp
          ultimately show ?thesis
            using "1.IH"(2)[OF ne \<open>htit_cursor iter = Some a\<close> e None inv] by simp
        next
          case (Some b)
          have it': "it' = iter\<lparr>htit_cursor := Some b\<rparr>"
            using run ne \<open>htit_cursor iter = Some a\<close> e Some
            by (subst (asm) ht_next.simps) simp
          from ok \<open>htit_cursor iter = Some a\<close> e
          have sl: "unat (htit_slot iter) < length (ht_entries h)"
            and home: "ht_slot h (hti_hash e) = unat (htit_slot iter)"
            by (simp_all add: iter_ok_def)
          have ain: "a \<in> set (cs (unat (htit_slot iter)))"
            using ht_inv_home[OF inv e] home by simp
          have ch: "ht_chain h (unat (htit_slot iter)) (cs (unat (htit_slot iter)))"
            by (rule ht_inv_chain[OF inv sl])
          then have "seg (ht_items h) (Head (unat (htit_slot iter)))
                       (tqh_first (ht_entries h ! unat (htit_slot iter)))
                       (cs (unat (htit_slot iter))) None"
            by (simp add: ht_chain_def)
          from seg_next_in[OF this ain e Some]
          have bin: "b \<in> set (cs (unat (htit_slot iter)))" .
          from ht_chain_live[OF ch bin] obtain eb where eb: "load (ht_items h) b = Some eb"
            by blast
          have "ht_slot h (hti_hash eb) = unat (htit_slot iter)"
            using ht_inv_mem[OF inv eb sl] bin by simp
          then show ?thesis using it' eb sl load_lt[OF eb] by (simp add: iter_ok_def)
        qed
      qed
    qed
  qed
qed

lemma iter_begin_ok:
  assumes inv: "ht_inv h cs" and run: "ht_iter h = Inr it"
  shows "iter_ok h it"
proof -
  have sized: "ht_sized h" by (rule ht_inv_sized[OF inv])
  then have pos: "0 < length (ht_entries h)" by (simp add: ht_sized_def unat_gt_0)
  with run have it: "it = \<lparr>htit_slot = 0, htit_cursor = tqh_first (ht_entries h ! 0)\<rparr>"
    by (simp add: ht_iter_def)
  show ?thesis
  proof (cases "tqh_first (ht_entries h ! 0)")
    case None
    then show ?thesis using it by (simp add: iter_ok_def)
  next
    case (Some a)
    have ch: "ht_chain h 0 (cs 0)" by (rule ht_inv_chain[OF inv pos])
    then have "a \<in> set (cs 0)" using Some by (cases "cs 0") (auto simp: ht_chain_def)
    then have ain: "a \<in> set (cs 0)" .
    from ht_chain_live[OF ch ain] obtain e where e: "load (ht_items h) a = Some e" by blast
    have "ht_slot h (hti_hash e) = 0" using ht_inv_mem[OF inv e pos] ain by simp
    then show ?thesis using it Some e pos load_lt[OF e] by (simp add: iter_ok_def)
  qed
qed

lemma remove_at_iter_dead:
  assumes "htit_cursor it = Some a" "load (ht_items h) a = None"
  shows "ht_remove_at_iter h it = Inl InvalidPointer"
  using assms by (simp add: ht_remove_at_iter_def TAILQ_REMOVE_def)

lemma remove_at_iter_live:
  assumes inv: "ht_inv h cs" and ok: "iter_ok h it"
    and cur: "htit_cursor it = Some a" and e: "load (ht_items h) a = Some e"
  shows "\<exists>h'. ht_remove_at_iter h it = Inr (OK, h', it) \<and>
           ht_inv h' (cs(unat (htit_slot it) := remove1 a (cs (unat (htit_slot it))))) \<and>
           load (ht_items h') a = None \<and>
           (\<forall>y. y \<noteq> a \<longrightarrow> payload (ht_items h') y = payload (ht_items h) y) \<and>
           length (ht_items h') = length (ht_items h) \<and>
           ht_nentries h' = ht_nentries h \<and>
           length (ht_entries h') = length (ht_entries h)"
proof -
  from ok cur e have sl: "unat (htit_slot it) < length (ht_entries h)"
    and home: "ht_slot h (hti_hash e) = unat (htit_slot it)"
    by (simp_all add: iter_ok_def)
  have ain: "a \<in> set (cs (unat (htit_slot it)))" using ht_inv_home[OF inv e] home by simp
  from remove_inv[OF inv sl ain] obtain h1 h2 where
    r: "TAILQ_REMOVE h (unat (htit_slot it)) a = Inr h1" "free_item h1 a = Inr h2"
    and rest: "ht_inv h2 (cs(unat (htit_slot it) := remove1 a (cs (unat (htit_slot it)))))"
      "load (ht_items h2) a = None"
      "\<forall>y. y \<noteq> a \<longrightarrow> payload (ht_items h2) y = payload (ht_items h) y"
      "length (ht_items h2) = length (ht_items h)"
      "ht_nentries h2 = ht_nentries h"
      "length (ht_entries h2) = length (ht_entries h)"
    by blast
  have "ht_remove_at_iter h it = Inr (OK, h2, it)"
    using cur r by (simp add: ht_remove_at_iter_def)
  then show ?thesis using rest by blast
qed

lemma reach_inv: "reach h its \<Longrightarrow> \<exists>cs. ht_inv h cs \<and> (\<forall>it\<in>set its. iter_ok h it)"
proof (induction rule: reach.induct)
  case (init sz)
  then show ?case using init_inv by auto
next
  case (add h its hash val st h')
  then obtain cs where inv: "ht_inv h cs" and oks: "\<forall>it\<in>set its. iter_ok h it" by blast
  show ?case
  proof (cases "\<exists>a. hash_at (ht_items h) a = Some hash")
    case True
    then obtain a where "hash_at (ht_items h) a = Some hash" ..
    from ht_add_present[OF inv this] add.hyps(2) have "h' = h" by simp
    then show ?thesis using inv oks by blast
  next
    case False
    then have "\<forall>a. hash_at (ht_items h) a \<noteq> Some hash" by simp
    from ht_add_absent[OF inv this, of val] add.hyps(2)
    have inv': "ht_inv h' (cs(ht_slot h hash := cs (ht_slot h hash) @ [length (ht_items h)]))"
      and pay: "\<forall>y. y \<noteq> length (ht_items h) \<longrightarrow>
                  payload (ht_items h') y = payload (ht_items h) y"
      and len: "length (ht_items h') = Suc (length (ht_items h))"
      and n: "ht_nentries h' = ht_nentries h"
      and lE: "length (ht_entries h') = length (ht_entries h)"
      by auto
    have "iter_ok h' it" if "it \<in> set its" for it
      using oks that pay len by (intro iter_ok_step[OF _ _ lE n]) auto
    then show ?thesis using inv' by blast
  qed
next
  case (remove h its hash st h')
  then obtain cs where inv: "ht_inv h cs" and oks: "\<forall>it\<in>set its. iter_ok h it" by blast
  show ?case
  proof (cases "\<exists>a. hash_at (ht_items h) a = Some hash")
    case False
    then have "\<forall>a. hash_at (ht_items h) a \<noteq> Some hash" by simp
    from ht_remove_absent[OF inv this] remove.hyps(2) have "h' = h" by simp
    then show ?thesis using inv oks by blast
  next
    case True
    then obtain a where a: "hash_at (ht_items h) a = Some hash" ..
    from ht_remove_present[OF inv a] remove.hyps(2)
    have inv': "ht_inv h' (cs(ht_slot h hash := remove1 a (cs (ht_slot h hash))))"
      and gone: "load (ht_items h') a = None"
      and pay: "\<forall>y. y \<noteq> a \<longrightarrow> payload (ht_items h') y = payload (ht_items h) y"
      and len: "length (ht_items h') = length (ht_items h)"
      and n: "ht_nentries h' = ht_nentries h"
      and lE: "length (ht_entries h') = length (ht_entries h)"
      by auto
    have "iter_ok h' it" if "it \<in> set its" for it
      using oks that by (intro iter_ok_removed[OF _ gone pay len lE n]) auto
    then show ?thesis using inv' by blast
  qed
next
  case (iter h its it)
  then obtain cs where inv: "ht_inv h cs" and oks: "\<forall>it\<in>set its. iter_ok h it" by blast
  from iter_begin_ok[OF inv iter.hyps(2)] show ?case using inv oks by auto
next
  case (advance h its k v it')
  then obtain cs where inv: "ht_inv h cs" and oks: "\<forall>it\<in>set its. iter_ok h it" by blast
  have "iter_ok h (its ! k)" using oks advance.hyps(2) by simp
  from next_iter_ok[OF inv this advance.hyps(3)] have "iter_ok h it'" .
  then have "\<forall>it\<in>set (its[k := it']). iter_ok h it"
    using oks by (auto dest!: set_update_subset_insert[THEN subsetD])
  then show ?case using inv by blast
next
  case (remove_at_iter h its k st h' it')
  then obtain cs where inv: "ht_inv h cs" and oks: "\<forall>it\<in>set its. iter_ok h it" by blast
  have ok: "iter_ok h (its ! k)" using oks remove_at_iter.hyps(2) by simp
  show ?case
  proof (cases "htit_cursor (its ! k)")
    case None
    with remove_at_iter.hyps(3) have "h' = h" "it' = its ! k"
      by (simp_all add: ht_remove_at_iter_def)
    then show ?thesis using inv oks by (auto simp: list_update_same_conv)
  next
    case (Some a)
    show ?thesis
    proof (cases "load (ht_items h) a")
      case None
      from remove_at_iter_dead[OF Some None] remove_at_iter.hyps(3) show ?thesis by simp
    next
      case (Some e)
      from remove_at_iter_live[OF inv ok \<open>htit_cursor (its ! k) = Some a\<close> Some]
        remove_at_iter.hyps(3)
      have it': "it' = its ! k"
        and inv': "ht_inv h' (cs(unat (htit_slot (its ! k)) :=
                     remove1 a (cs (unat (htit_slot (its ! k))))))"
        and gone: "load (ht_items h') a = None"
        and pay: "\<forall>y. y \<noteq> a \<longrightarrow> payload (ht_items h') y = payload (ht_items h) y"
        and len: "length (ht_items h') = length (ht_items h)"
        and n: "ht_nentries h' = ht_nentries h"
        and lE: "length (ht_entries h') = length (ht_entries h)"
        by auto
      have "iter_ok h' it" if "it \<in> set its" for it
        using oks that by (intro iter_ok_removed[OF _ gone pay len lE n]) auto
      then show ?thesis using inv' it' by (auto simp: list_update_same_conv)
    qed
  qed
qed


lemma in_pairs: "(x, v) \<in> set (ht_pairs h) \<longleftrightarrow> (\<exists>a. payload (ht_items h) a = Some (x, v))"
proof
  assume "(x, v) \<in> set (ht_pairs h)"
  then obtain e where e: "Some e \<in> set (ht_items h)" "hti_hash e = x" "hti_data e = v"
    by (auto simp: ht_pairs_def split: option.splits)
  then obtain a where "a < length (ht_items h)" "ht_items h ! a = Some e"
    by (auto simp: in_set_conv_nth)
  then have "payload (ht_items h) a = Some (x, v)" using e by (simp add: payload_def load_def)
  then show "\<exists>a. payload (ht_items h) a = Some (x, v)" ..
next
  assume "\<exists>a. payload (ht_items h) a = Some (x, v)"
  then obtain a e where "load (ht_items h) a = Some e" "hti_hash e = x" "hti_data e = v"
    by (auto simp: payload_def)
  then have "Some e \<in> set (ht_items h)" "hti_hash e = x" "hti_data e = v"
    by (auto simp: load_def in_set_conv_nth split: if_splits)
  then show "(x, v) \<in> set (ht_pairs h)"
    by (force simp: ht_pairs_def)
qed

lemma stored_iff: "stored h x v \<longleftrightarrow> (\<exists>a. payload (ht_items h) a = Some (x, v))"
  by (simp add: stored_def in_pairs)

lemma absent_iff: "absent h x \<longleftrightarrow> (\<forall>a. hash_at (ht_items h) a \<noteq> Some x)"
proof -
  have "x \<in> set (map fst (ht_pairs h)) \<longleftrightarrow> (\<exists>v. (x, v) \<in> set (ht_pairs h))"
    by force
  also have "\<dots> \<longleftrightarrow> (\<exists>a v. payload (ht_items h) a = Some (x, v))"
    by (auto simp: in_pairs)
  also have "\<dots> \<longleftrightarrow> (\<exists>a. hash_at (ht_items h) a = Some x)"
    by (auto simp: hash_at_payload)
  finally show ?thesis by (simp add: absent_def)
qed

lemma ht_inv_hash_unique:
  assumes inv: "ht_inv h cs" and a: "hash_at (ht_items h) a = Some x"
    and b: "hash_at (ht_items h) b = Some x"
  shows "a = b"
proof -
  from a obtain v where v: "payload (ht_items h) a = Some (x, v)"
    by (auto simp: hash_at_def payload_def)
  from b obtain w where w: "payload (ht_items h) b = Some (x, w)"
    by (auto simp: hash_at_def payload_def)
  from ht_inv_present(3)[OF inv v] ht_inv_present(1)[OF inv w] b show ?thesis by simp
qed

lemma add_ok_facts:
  assumes inv: "ht_inv h cs" and run: "ht_add h x v = Some (Inr (OK, h'))"
  shows "\<forall>a. hash_at (ht_items h) a \<noteq> Some x"
    and "\<exists>cs'. ht_inv h' cs'"
    and "payload (ht_items h') (length (ht_items h)) = Some (x, v)"
    and "\<forall>y. y \<noteq> length (ht_items h) \<longrightarrow> payload (ht_items h') y = payload (ht_items h) y"
proof -
  show abs: "\<forall>a. hash_at (ht_items h) a \<noteq> Some x"
  proof (rule ccontr)
    assume "\<not> (\<forall>a. hash_at (ht_items h) a \<noteq> Some x)"
    then obtain a where "hash_at (ht_items h) a = Some x" by blast
    from ht_add_present[OF inv this, of v] run show False by simp
  qed
  from ht_add_absent[OF inv abs, of v] run
  show "\<exists>cs'. ht_inv h' cs'"
    and "payload (ht_items h') (length (ht_items h)) = Some (x, v)"
    and "\<forall>y. y \<noteq> length (ht_items h) \<longrightarrow> payload (ht_items h') y = payload (ht_items h) y"
    by auto
qed

lemma reach_add_all:
  "reach h its \<Longrightarrow> ht_add_all h kvs = Some (Inr h') \<Longrightarrow> reach h' its"
proof (induction kvs arbitrary: h)
  case Nil
  then show ?case by simp
next
  case (Cons kv kvs)
  obtain x v where kv: "kv = (x, v)" by (cases kv)
  from Cons.prems(2) kv obtain st h1 where
    s: "ht_add h x v = Some (Inr (st, h1))" "ht_add_all h1 kvs = Some (Inr h')"
    by (auto split: option.splits sum.splits)
  from reach.add[OF Cons.prems(1) s(1)] have "reach h1 its" .
  from Cons.IH[OF this s(2)] show ?case .
qed

lemma find_frame:
  assumes inv: "ht_inv h cs" and inv': "ht_inv h' cs'"
    and same: "\<And>a. hash_at (ht_items h) a = Some y \<or> hash_at (ht_items h') a = Some y \<Longrightarrow>
                 payload (ht_items h') a = payload (ht_items h) a"
  shows "ht_find h' y = ht_find h y"
proof (cases "\<exists>a. hash_at (ht_items h) a = Some y")
  case True
  then obtain a where a: "hash_at (ht_items h) a = Some y" ..
  then obtain w where w: "payload (ht_items h) a = Some (y, w)"
    by (auto simp: hash_at_def payload_def)
  have "payload (ht_items h') a = Some (y, w)" using same[of a] a w by simp
  from ht_find_present[OF inv' this] ht_find_present[OF inv w] show ?thesis by simp
next
  case False
  then have abs: "\<forall>a. hash_at (ht_items h) a \<noteq> Some y" by simp
  have abs': "\<forall>a. hash_at (ht_items h') a \<noteq> Some y"
  proof (rule allI, rule notI)
    fix a assume a: "hash_at (ht_items h') a = Some y"
    then have "payload (ht_items h') a = payload (ht_items h) a" using same[of a] by simp
    then have "hash_at (ht_items h) a = Some y" using a by (simp add: hash_at_payload)
    then show False using abs by simp
  qed
  from ht_find_absent[OF inv abs] ht_find_absent[OF inv' abs'] show ?thesis by simp
qed

lemma next_null_cursor:
  "htit_cursor iter = None \<Longrightarrow>
   \<exists>it'. ht_next h iter = Inr (None, it') \<and> htit_cursor it' = None \<and>
         htit_slot it' = ht_nentries h"
proof (induction h iter rule: ht_next.induct)
  case (1 h iter)
  show ?case
  proof (cases "htit_slot iter = ht_nentries h")
    case True
    then show ?thesis using "1.prems" by (subst ht_next.simps) simp
  next
    case False
    have "htit_cursor (iter\<lparr>htit_slot := htit_slot iter + 1\<rparr>) = None"
      using "1.prems" by simp
    from "1.IH"(1)[OF False "1.prems" this] show ?thesis
      using False "1.prems" by (subst ht_next.simps) simp
  qed
qed

lemma next_value:
  assumes "ht_next h iter = Inr (Some v, it')"
  shows "\<exists>a e b. htit_slot iter \<noteq> ht_nentries h \<and> htit_cursor iter = Some a \<and>
           load (ht_items h) a = Some e \<and> hti_data e = Some v \<and> tqe_next e = Some b \<and>
           it' = iter\<lparr>htit_cursor := Some b\<rparr>"
proof -
  have ne: "htit_slot iter \<noteq> ht_nentries h"
    using assms by (subst (asm) ht_next.simps) (auto split: if_splits)
  obtain a where cur: "htit_cursor iter = Some a"
    using next_null_cursor[of iter h] assms by (cases "htit_cursor iter") auto
  obtain e where e: "load (ht_items h) a = Some e"
    using assms ne cur by (subst (asm) ht_next.simps) (cases "load (ht_items h) a", auto)
  obtain b where b: "tqe_next e = Some b"
  proof (cases "tqe_next e")
    case None
    have "htit_cursor (iter\<lparr>htit_cursor := None, htit_slot := htit_slot iter + 1\<rparr>) = None"
      by simp
    from next_null_cursor[OF this, of h] assms ne cur e None
    show ?thesis by (subst (asm) (2) ht_next.simps) auto
  next
    case (Some b)
    then show ?thesis using that by simp
  qed
  from assms ne cur e b have "hti_data e = Some v" "it' = iter\<lparr>htit_cursor := Some b\<rparr>"
    by (subst (asm) ht_next.simps, simp)+
  then show ?thesis using ne cur e b by simp
qed

lemma seg_head_next:
  "seg m c (Some b) (b # ys) None \<Longrightarrow>
   \<exists>eb. load m b = Some eb \<and> tqe_next eb = (case ys of [] \<Rightarrow> None | y # _ \<Rightarrow> Some y)"
  by (cases ys) (auto split: option.splits)

lemma destroy_while_chain:
  assumes "ht_chain h i (f # ys)" and "distinct (f # ys)"
    and "load (ht_items h) hi = Some e"
    and "tqe_next e = (case ys of [] \<Rightarrow> None | y # _ \<Rightarrow> Some y)"
  shows "\<exists>h'. ht_destroy_while h i hi = Some (Inr h') \<and> ht_chain h' i [f] \<and>
           ht_nentries h' = ht_nentries h \<and>
           length (ht_entries h') = length (ht_entries h) \<and>
           length (ht_items h') = length (ht_items h) \<and>
           (\<forall>j. j \<noteq> i \<longrightarrow> ht_entries h' ! j = ht_entries h ! j) \<and>
           (\<forall>x. x \<notin> set (f # ys) \<longrightarrow> load (ht_items h') x = load (ht_items h) x) \<and>
           (\<forall>x. payload (ht_items h') x = payload (ht_items h) x)"
  using assms
proof (induction ys arbitrary: h hi e)
  case Nil
  then show ?case by (subst ht_destroy_while.simps) simp
next
  case (Cons b ys)
  have ch: "ht_chain h i ([f] @ b # ys)" using Cons.prems(1) by simp
  have d: "distinct ([f] @ b # ys)" using Cons.prems(2) by simp
  from TAILQ_REMOVE_chain[OF ch d] obtain h1 where
    run: "TAILQ_REMOVE h i b = Inr h1" and ch1: "ht_chain h1 i (f # ys)"
    and n1: "ht_nentries h1 = ht_nentries h"
    and lE1: "length (ht_entries h1) = length (ht_entries h)"
    and lm1: "length (ht_items h1) = length (ht_items h)"
    and E1: "\<forall>j. j \<noteq> i \<longrightarrow> ht_entries h1 ! j = ht_entries h ! j"
    and out1: "\<forall>x. x \<notin> set ([f] @ ys) \<longrightarrow> load (ht_items h1) x = load (ht_items h) x"
    and pay1: "\<forall>x. payload (ht_items h1) x = payload (ht_items h) x"
    by auto
  from Cons.prems(1) have "seg (ht_items h) (Next f) (Some b) (b # ys) None"
    by (auto simp: ht_chain_def split: option.splits)
  from seg_head_next[OF this] obtain eb where
    eb: "load (ht_items h) b = Some eb"
      "tqe_next eb = (case ys of [] \<Rightarrow> None | y # _ \<Rightarrow> Some y)"
    by blast
  have "b \<notin> set ([f] @ ys)" using Cons.prems(2) by auto
  then have eb1: "load (ht_items h1) b = Some eb" using out1 eb(1) by simp
  have d1: "distinct (f # ys)" using Cons.prems(2) by simp
  from Cons.IH[OF ch1 d1 eb1 eb(2)] obtain h' where
    rec: "ht_destroy_while h1 i b = Some (Inr h')" and ch': "ht_chain h' i [f]"
    and n': "ht_nentries h' = ht_nentries h1"
    and lE': "length (ht_entries h') = length (ht_entries h1)"
    and lm': "length (ht_items h') = length (ht_items h1)"
    and E': "\<forall>j. j \<noteq> i \<longrightarrow> ht_entries h' ! j = ht_entries h1 ! j"
    and out': "\<forall>x. x \<notin> set (f # ys) \<longrightarrow> load (ht_items h') x = load (ht_items h1) x"
    and pay': "\<forall>x. payload (ht_items h') x = payload (ht_items h1) x"
    by blast
  have "ht_destroy_while h i hi = Some (Inr h')"
    using Cons.prems(3,4) run rec by (subst ht_destroy_while.simps) simp
  moreover have "\<forall>x. x \<notin> set (f # b # ys) \<longrightarrow> load (ht_items h') x = load (ht_items h) x"
    using out1 out' by simp
  ultimately show ?case
    using ch' n' n1 lE' lE1 lm' lm1 E' E1 pay' pay1 by simp
qed

lemma word64_succ:
  fixes k n :: "64 word"
  assumes "k < n"
  shows "unat (k + 1) = Suc (unat k)"
proof -
  have "unat k < unat n" using assms by (simp add: word_less_nat_alt)
  moreover have "unat n < 2 ^ 64" using unsigned_less[of n] by simp
  ultimately have "unat k + unat (1 :: 64 word) < 2 ^ LENGTH(64)" by simp
  then have "unat (k + 1) = unat k + unat (1 :: 64 word)" by (simp only: unat_add_lem)
  then show ?thesis by simp
qed

lemma destroy_for_keeps:
  assumes "ht_sized h"
    and "\<forall>j. unat k \<le> j \<and> j < length (ht_entries h) \<longrightarrow> ht_chain h j (cs j) \<and> distinct (cs j)"
    and "\<forall>j j'. j \<noteq> j' \<longrightarrow> set (cs j) \<inter> set (cs j') = {}"
  shows "\<exists>h'. ht_destroy_for h k = Some (Inr h') \<and>
           length (ht_items h') = length (ht_items h) \<and>
           (\<forall>x. payload (ht_items h') x = payload (ht_items h) x)"
  using assms
proof (induction "unat (ht_nentries h) - unat k" arbitrary: h k)
  case 0
  then have "\<not> k < ht_nentries h" by (simp add: word_less_nat_alt)
  then show ?case by (subst ht_destroy_for.simps) simp
next
  case (Suc d)
  then have lt: "k < ht_nentries h" by (simp add: word_less_nat_alt)
  have kn: "unat k < length (ht_entries h)"
    using lt Suc.prems(1) by (simp add: ht_sized_def word_less_nat_alt)
  have succ: "unat (k + 1) = Suc (unat k)" by (rule word64_succ[OF lt])
  from Suc.prems(2) kn have ch: "ht_chain h (unat k) (cs (unat k))"
    and dk: "distinct (cs (unat k))"
    by auto
  show ?case
  proof (cases "cs (unat k)")
    case Nil
    with ch have first: "tqh_first (ht_entries h ! unat k) = None" by (simp add: ht_chain_def)
    have "d = unat (ht_nentries h) - unat (k + 1)" using Suc.hyps(2) succ by simp
    moreover have "\<forall>j. unat (k + 1) \<le> j \<and> j < length (ht_entries h) \<longrightarrow>
                      ht_chain h j (cs j) \<and> distinct (cs j)"
      using Suc.prems(2) succ by simp
    ultimately obtain h' where
      "ht_destroy_for h (k + 1) = Some (Inr h')"
      "length (ht_items h') = length (ht_items h)"
      "\<forall>x. payload (ht_items h') x = payload (ht_items h) x"
      using Suc.hyps(1)[of h "k + 1"] Suc.prems(1,3) by blast
    then show ?thesis using lt kn first by (subst ht_destroy_for.simps) simp
  next
    case (Cons f ys)
    with ch have first: "tqh_first (ht_entries h ! unat k) = Some f"
      and sg: "seg (ht_items h) (Head (unat k)) (Some f) (f # ys) None"
      by (simp_all add: ht_chain_def)
    from seg_head_next[OF sg] obtain e where
      e: "load (ht_items h) f = Some e"
        "tqe_next e = (case ys of [] \<Rightarrow> None | y # _ \<Rightarrow> Some y)"
      by blast
    have chf: "ht_chain h (unat k) (f # ys)" and df: "distinct (f # ys)"
      using ch dk Cons by simp_all
    from destroy_while_chain[OF chf df e] obtain h1 where
      w: "ht_destroy_while h (unat k) f = Some (Inr h1)"
      and n1: "ht_nentries h1 = ht_nentries h"
      and lE1: "length (ht_entries h1) = length (ht_entries h)"
      and lm1: "length (ht_items h1) = length (ht_items h)"
      and E1: "\<forall>j. j \<noteq> unat k \<longrightarrow> ht_entries h1 ! j = ht_entries h ! j"
      and out1: "\<forall>x. x \<notin> set (f # ys) \<longrightarrow> load (ht_items h1) x = load (ht_items h) x"
      and pay1: "\<forall>x. payload (ht_items h1) x = payload (ht_items h) x"
      by blast
    have sized1: "ht_sized h1" using Suc.prems(1) n1 lE1 by (simp add: ht_sized_def)
    have d1: "d = unat (ht_nentries h1) - unat (k + 1)" using Suc.hyps(2) succ n1 by simp
    have rest: "\<forall>j. unat (k + 1) \<le> j \<and> j < length (ht_entries h1) \<longrightarrow>
                  ht_chain h1 j (cs j) \<and> distinct (cs j)"
    proof (intro allI impI)
      fix j assume j: "unat (k + 1) \<le> j \<and> j < length (ht_entries h1)"
      then have jk: "j \<noteq> unat k" and jn: "j < length (ht_entries h)" and kj: "unat k \<le> j"
        using succ lE1 by simp_all
      from Suc.prems(2) kj jn have cj: "ht_chain h j (cs j)" and dj: "distinct (cs j)" by auto
      have "ht_chain h1 j (cs j)"
      proof (rule ht_chain_frame[OF cj lE1])
        show "ht_entries h1 ! j = ht_entries h ! j" using E1 jk by simp
      next
        fix x assume "x \<in> set (cs j)"
        then have "x \<notin> set (cs (unat k))" using Suc.prems(3) jk by blast
        then show "load (ht_items h1) x = load (ht_items h) x" using out1 Cons by simp
      qed
      then show "ht_chain h1 j (cs j) \<and> distinct (cs j)" using dj by simp
    qed
    from Suc.hyps(1)[OF d1 sized1 rest Suc.prems(3)] obtain h' where
      "ht_destroy_for h1 (k + 1) = Some (Inr h')"
      "length (ht_items h') = length (ht_items h1)"
      "\<forall>x. payload (ht_items h') x = payload (ht_items h1) x"
      by blast
    then show ?thesis using lt kn first w lm1 pay1
      by (subst ht_destroy_for.simps) simp
  qed
qed

lemma ht_live_payload:
  assumes "length m' = length m" and "\<forall>x. payload m' x = payload m x"
  shows "ht_live m' = ht_live m"
proof -
  have "\<forall>x < length m. (m' ! x \<noteq> None) = (m ! x \<noteq> None)"
  proof (intro allI impI)
    fix x assume x: "x < length m"
    have "(payload m' x = None) = (payload m x = None)" using assms(2) by simp
    then show "(m' ! x \<noteq> None) = (m ! x \<noteq> None)"
      using x assms(1) by (simp add: payload_def load_def)
  qed
  then have "map (\<lambda>b. b \<noteq> None) m' = map (\<lambda>b. b \<noteq> None) m"
    using assms(1) by (auto intro: nth_equalityI)
  then have "length (filter id (map (\<lambda>b. b \<noteq> None) m')) =
             length (filter id (map (\<lambda>b. b \<noteq> None) m))"
    by simp
  then show ?thesis by (simp add: ht_live_def filter_map comp_def)
qed

lemma drain_chain:
  assumes inv: "ht_inv h cs" and sl: "unat s < length (ht_entries h)"
    and sp: "cs (unat s) = xs @ ys"
  shows "\<exists>vs. ht_drain h \<lparr>htit_slot = s,
                          htit_cursor = (case ys of [] \<Rightarrow> None | a # _ \<Rightarrow> Some a)\<rparr>
                = Some (Inr vs) \<and> length vs \<le> length ys - 1"
  using sp
proof (induction ys arbitrary: xs)
  case Nil
  from next_null_cursor[of "\<lparr>htit_slot = s, htit_cursor = None\<rparr>" h]
  show ?case by (subst ht_drain.simps) auto
next
  case (Cons a ys)
  have ne: "s \<noteq> ht_nentries h"
    using sl ht_inv_sized[OF inv] by (auto simp: ht_sized_def)
  have "seg (ht_items h) (Head (unat s)) (tqh_first (ht_entries h ! unat s)) (xs @ a # ys) None"
    using ht_inv_chain[OF inv sl] Cons.prems by (simp add: ht_chain_def)
  then obtain e where e: "load (ht_items h) a = Some e"
    and rest: "seg (ht_items h) (Next a) (tqe_next e) ys None"
    by (auto simp: seg_append split: option.splits)
  show ?case
  proof (cases ys)
    case Nil
    with rest have nx: "tqe_next e = None" by simp
    from next_null_cursor[of "\<lparr>htit_slot = s + 1, htit_cursor = None\<rparr>" h]
    obtain it' where "ht_next h \<lparr>htit_slot = s + 1, htit_cursor = None\<rparr> = Inr (None, it')"
      by auto
    then have "ht_next h \<lparr>htit_slot = s, htit_cursor = Some a\<rparr> = Inr (None, it')"
      using ne e nx by (subst ht_next.simps) simp
    then show ?thesis by (subst ht_drain.simps) simp
  next
    case (Cons b ys')
    with rest have nx: "tqe_next e = Some b" by simp
    have step: "ht_next h \<lparr>htit_slot = s, htit_cursor = Some a\<rparr> =
                  Inr (hti_data e, \<lparr>htit_slot = s, htit_cursor = Some b\<rparr>)"
      using ne e nx by (subst ht_next.simps) simp
    have "cs (unat s) = (xs @ [a]) @ ys" using Cons.prems by simp
    from Cons.IH[OF this] Cons obtain vs where
      vs: "ht_drain h \<lparr>htit_slot = s, htit_cursor = Some b\<rparr> = Some (Inr vs)"
        "length vs \<le> length ys - 1"
      by auto
    show ?thesis
    proof (cases "hti_data e")
      case None
      then show ?thesis using step by (subst ht_drain.simps) simp
    next
      case (Some v)
      then have "ht_drain h \<lparr>htit_slot = s, htit_cursor = Some a\<rparr> = Some (Inr (v # vs))"
        using step vs(1) by (subst ht_drain.simps) simp
      then show ?thesis using vs(2) Cons by simp
    qed
  qed
qed

lemma length_ht_pairs: "length (ht_pairs h) = ht_live (ht_items h)"
proof -
  have "length (concat (map (\<lambda>b. case b of None \<Rightarrow> []
                                      | Some e \<Rightarrow> [(hti_hash e, hti_data e)]) m)) =
        length (filter (\<lambda>b. b \<noteq> None) m)" for m :: "'a ht_item option list"
    by (induction m) (auto split: option.splits)
  then show ?thesis by (simp add: ht_pairs_def ht_live_def)
qed

lemma chain_le_live:
  assumes "ht_chain h i as" and "distinct as"
  shows "length as \<le> ht_live (ht_items h)"
proof -
  define m where "m = ht_items h"
  have sub: "set as \<subseteq> {a. a < length m \<and> m ! a \<noteq> None}"
  proof
    fix a assume "a \<in> set as"
    from ht_chain_live[OF assms(1) this] obtain e where "load m a = Some e"
      by (auto simp: m_def)
    then show "a \<in> {a. a < length m \<and> m ! a \<noteq> None}"
      by (auto simp: load_def split: if_splits)
  qed
  have "length as = card (set as)" using assms(2) by (simp add: distinct_card)
  also have "\<dots> \<le> card {a. a < length m \<and> m ! a \<noteq> None}"
    by (rule card_mono[OF _ sub]) simp
  also have "\<dots> = length (filter (\<lambda>b. b \<noteq> None) m)"
    by (simp add: length_filter_conv_card)
  finally show ?thesis by (simp add: ht_live_def m_def)
qed

section \<open>The claims\<close>

subsection \<open>Evaluation of the example tables\<close>

lemma reach_init4: "reach (ht_init 4 :: nat ht) []"
  by (rule reach.init) simp

lemma ex_one_built: "ht_add (ht_init 4) 5 (Some 50) = Some (Inr (OK, ex_one))"
  by code_simp

lemma ex_null_built: "ht_add (ht_init 4) 5 None = Some (Inr (OK, ex_null))"
  by code_simp

lemma ex_table_built:
  "ht_add_all (ht_init 4) [(1, Some 10), (5, Some 50), (9, Some 90), (2, Some 20)] =
     Some (Inr ex_table)"
  by code_simp

lemma ex_chain_built:
  "ht_add_all (ht_init 4) [(0, Some 1), (4, Some 2), (8, Some 3)] = Some (Inr ex_chain)"
  by code_simp

lemma ex_full_built:
  "ht_add_all (ht_init 4)
     [(0, Some 100), (1, Some 101), (2, Some 102), (3, Some 103),
      (4, Some 104), (5, Some 105), (6, Some 106), (7, Some 107)] = Some (Inr ex_full)"
  by code_simp

lemma ex_table_iter: "ht_iter ex_table = Inr ex_it_null"
  by code_simp

lemma ex_table_next: "ht_next ex_table ex_it_null = Inr (None, ex_it_end)"
  by code_simp

lemma ex_chain_iter: "ht_iter ex_chain = Inr ex_it0"
  by code_simp

lemma ex_chain_next: "ht_next ex_chain ex_it0 = Inr (Some 1, ex_it1)"
  by code_simp

lemma ex_chain_cut_run: "ht_remove_at_iter ex_chain ex_it1 = Inr (OK, ex_chain_cut, ex_it1)"
  by code_simp

lemma reach_ex_table: "reach ex_table []"
  by (rule reach_add_all[OF reach_init4 ex_table_built])

lemma reach_ex_chain: "reach ex_chain []"
  by (rule reach_add_all[OF reach_init4 ex_chain_built])

lemma reach_ex_chain_it1: "reach ex_chain [ex_it1]"
proof -
  have "reach ex_chain [ex_it0]" by (rule reach.iter[OF reach_ex_chain ex_chain_iter])
  from reach.advance[OF this, of 0 "Some 1" ex_it1] ex_chain_next show ?thesis by simp
qed

lemma reach_ex_table_null: "reach ex_table [ex_it_null]"
  by (rule reach.iter[OF reach_ex_table ex_table_iter])

lemma reach_ex_table_end: "reach ex_table [ex_it_end]"
proof -
  from reach.advance[OF reach_ex_table_null, of 0 None ex_it_end] ex_table_next
  show ?thesis by simp
qed

subsection \<open>C1: iteration completeness\<close>

text \<open>
  Claim C1: after \<open>N\<close> adds with distinct hashes, repeated \<open>next\<close> on an iterator
  from \<open>beginIteration\<close> yields exactly the \<open>N\<close> inserted values, each once; \<open>next\<close>
  skips empty buckets and visits every non-empty bucket.

  The code does not do this. When \<open>ht_next\<close> finds the cursor \<open>NULL\<close>, or the
  successor of the cursor \<open>NULL\<close>, it increments \<open>htit_slot\<close> and jumps to \<open>retry\<close>
  without setting the cursor to the first item of the new bucket, so the cursor
  stays \<open>NULL\<close> until the slot reaches \<open>ht_nentries\<close>. In the example scenario of
  the spec (hashes 1, 5, 9 in bucket 1 and 2 in bucket 2) the iteration yields no
  value at all; with hashes 0, 4, 8 in bucket 0 it yields the first two values and
  never the last one of the chain.
\<close>

theorem iteration_misses_entries:
  "ht_add_all (ht_init 4) [(1, Some 10), (5, Some 50), (9, Some 90), (2, Some 20)] =
     Some (Inr ex_table) \<and>
   ht_iter ex_table = Inr ex_it_null \<and>
   ht_drain ex_table ex_it_null = Some (Inr []) \<and>
   ht_add_all (ht_init 4) [(0, Some 1), (4, Some 2), (8, Some 3)] = Some (Inr ex_chain) \<and>
   ht_iter ex_chain = Inr ex_it0 \<and>
   ht_drain ex_chain ex_it0 = Some (Inr [1, 2])"
proof -
  have a: "ht_drain ex_table ex_it_null = Some (Inr [])" by code_simp
  have b: "ht_drain ex_chain ex_it0 = Some (Inr [1, 2])" by code_simp
  show ?thesis
    using ex_table_built ex_table_iter a ex_chain_built ex_chain_iter b by simp
qed

subsection \<open>C2: which entry \<open>removeAtCursor\<close> removes\<close>

text \<open>
  Claim C2: after \<open>next\<close> has returned the value stored under hash \<open>h\<close>, a following
  \<open>removeAtCursor\<close> removes exactly the entry with hash \<open>h\<close>, not the entry the
  cursor is about to return; afterwards \<open>find(h)\<close> reports absent and every other
  entry is still present.

  The code removes the other one. \<open>ht_next\<close> has moved \<open>htit_cursor\<close> to the
  successor of the item whose value it returns, and \<open>ht_remove_at_iter\<close> unlinks and
  frees \<open>htit_cursor\<close>. On \<open>ex_chain\<close> the first \<open>ht_next\<close> returns the value 1 of
  hash 0; the removal then takes the entry of hash 4: \<open>find\<close> still returns 1 for
  hash 0 and reports hash 4 absent.
\<close>

theorem remove_at_iter_removes_successor:
  "ht_iter ex_chain = Inr ex_it0 \<and>
   ht_next ex_chain ex_it0 = Inr (Some 1, ex_it1) \<and>
   ht_find ex_chain 0 = Some (Inr (Some 1)) \<and>
   ht_find ex_chain 4 = Some (Inr (Some 2)) \<and>
   ht_remove_at_iter ex_chain ex_it1 = Inr (OK, ex_chain_cut, ex_it1) \<and>
   ht_find ex_chain_cut 0 = Some (Inr (Some 1)) \<and>
   ht_find ex_chain_cut 4 = Some (Inr None)"
proof -
  have a: "ht_find ex_chain 0 = Some (Inr (Some 1))" by code_simp
  have b: "ht_find ex_chain 4 = Some (Inr (Some 2))" by code_simp
  have c: "ht_find ex_chain_cut 0 = Some (Inr (Some 1))" by code_simp
  have d: "ht_find ex_chain_cut 4 = Some (Inr None)" by code_simp
  show ?thesis using ex_chain_iter ex_chain_next a b ex_chain_cut_run c d by simp
qed

subsection \<open>C3: \<open>InvalidState\<close>\<close>

text \<open>
  Claim C3: \<open>removeAtCursor\<close> on a freshly begun iterator before any \<open>next\<close> call,
  or on an iterator that has reported Exhausted, fails with \<open>InvalidState\<close> and
  leaves the table and the iterator unchanged.

  As stated the claim is false: \<open>ht_iter\<close> puts the cursor on the first item of
  bucket 0, and \<open>ht_remove_at_iter\<close> fails only when the cursor is \<open>NULL\<close>. On
  \<open>ex_chain\<close>, whose bucket 0 is not empty, the call on the fresh iterator returns 0
  and changes the table.
\<close>

theorem remove_at_fresh_iter_counterexample:
  "ht_add_all (ht_init 4) [(0, Some 1), (4, Some 2), (8, Some 3)] = Some (Inr ex_chain) \<and>
   ht_iter ex_chain = Inr ex_it0 \<and>
   ht_remove_at_iter ex_chain ex_it0 = Inr (OK, ex_chain_beheaded, ex_it0) \<and>
   ht_remove_at_iter ex_chain ex_it0 \<noteq> Inr (ERR EINVAL, ex_chain, ex_it0)"
proof -
  have a: "ht_remove_at_iter ex_chain ex_it0 = Inr (OK, ex_chain_beheaded, ex_it0)"
    by code_simp
  show ?thesis using ex_chain_built ex_chain_iter a by simp
qed

text \<open>
  Claim C3 as amended: for every reachable table, \<open>removeAtCursor\<close> fails with
  \<open>InvalidState\<close> and leaves the table and the iterator unchanged when it is called
  on a freshly begun iterator of a table whose bucket 0 is empty, and when it is
  called on an iterator that is exhausted, that is, whose slot equals the bucket
  count, where \<open>next\<close> reports Exhausted.
\<close>

theorem remove_at_iter_invalid_state:
  assumes "reach h its"
  shows "(ht_iter h = Inr it \<and> tqh_first (ht_entries h ! 0) = None \<longrightarrow>
            ht_remove_at_iter h it = Inr (ERR EINVAL, h, it)) \<and>
         (it2 \<in> set its \<and> htit_slot it2 = ht_nentries h \<longrightarrow>
            ht_next h it2 = Inr (None, it2) \<and>
            ht_remove_at_iter h it2 = Inr (ERR EINVAL, h, it2))"
proof -
  from reach_inv[OF assms] obtain cs where inv: "ht_inv h cs"
    and oks: "\<forall>it\<in>set its. iter_ok h it"
    by blast
  have fresh: "ht_remove_at_iter h it = Inr (ERR EINVAL, h, it)"
    if "ht_iter h = Inr it" "tqh_first (ht_entries h ! 0) = None"
  proof -
    from that have "htit_cursor it = None" by (auto simp: ht_iter_def split: if_splits)
    then show ?thesis by (simp add: ht_remove_at_iter_def)
  qed
  have spent: "ht_next h it2 = Inr (None, it2) \<and>
              ht_remove_at_iter h it2 = Inr (ERR EINVAL, h, it2)"
    if "it2 \<in> set its" "htit_slot it2 = ht_nentries h"
  proof -
    have ok: "iter_ok h it2" using oks that(1) by simp
    have "htit_cursor it2 = None"
    proof (rule ccontr)
      assume "htit_cursor it2 \<noteq> None"
      then obtain a where cur: "htit_cursor it2 = Some a" by blast
      with ok have "unat (htit_slot it2) < length (ht_entries h)" by (simp add: iter_ok_def)
      then have "unat (htit_slot it2) < unat (ht_nentries h)"
        using ht_inv_sized[OF inv] by (simp add: ht_sized_def)
      then show False using that(2) by simp
    qed
    then have "ht_remove_at_iter h it2 = Inr (ERR EINVAL, h, it2)"
      by (simp add: ht_remove_at_iter_def)
    moreover have "ht_next h it2 = Inr (None, it2)"
      using that(2) by (subst ht_next.simps) simp
    ultimately show ?thesis by simp
  qed
  from fresh spent show ?thesis by blast
qed

theorem remove_at_iter_invalid_state_witness:
  "reach ex_table [ex_it_end] \<and>
   ht_iter ex_table = Inr ex_it_null \<and>
   tqh_first (ht_entries ex_table ! 0) = None \<and>
   ht_remove_at_iter ex_table ex_it_null = Inr (ERR EINVAL, ex_table, ex_it_null) \<and>
   htit_slot ex_it_end = ht_nentries ex_table \<and>
   ht_next ex_table ex_it_end = Inr (None, ex_it_end) \<and>
   ht_remove_at_iter ex_table ex_it_end = Inr (ERR EINVAL, ex_table, ex_it_end)"
proof -
  have e: "tqh_first (ht_entries ex_table ! 0) = None"
    by (simp add: ex_table_def ex_bucket_def)
  have s: "htit_slot ex_it_end = ht_nentries ex_table"
    by (simp add: ex_it_end_def ex_table_def)
  have m: "ex_it_end \<in> set [ex_it_end]" by simp
  from remove_at_iter_invalid_state[OF reach_ex_table_end, of ex_it_null ex_it_end]
    ex_table_iter e s m reach_ex_table_end
  show ?thesis by simp
qed

subsection \<open>C4: \<open>destroy\<close> frees every entry node\<close>

text \<open>
  Claim C4: \<open>destroy\<close> visits and frees every entry node still present in every
  chain, including each chain's first node; no entry node is leaked.

  The code does not do this. For every non-empty bucket \<open>ht_destroy\<close> starts at the
  first item and calls \<open>TAILQ_REMOVE\<close> on each successor; it calls \<open>free\<close> on no
  item, and it does not even unlink the first one. On \<open>ex_full\<close>, eight entries with
  two in every bucket, all eight item blocks are still allocated afterwards.
\<close>

theorem destroy_frees_no_item:
  "ht_add_all (ht_init 4)
     [(0, Some 100), (1, Some 101), (2, Some 102), (3, Some 103),
      (4, Some 104), (5, Some 105), (6, Some 106), (7, Some 107)] = Some (Inr ex_full) \<and>
   ht_live (ht_items ex_full) = 8 \<and>
   ht_destroy ex_full = Some (Inr ex_full_left) \<and>
   ht_live ex_full_left = 8"
proof -
  have a: "ht_live (ht_items ex_full) = 8" by code_simp
  have b: "ht_destroy ex_full = Some (Inr ex_full_left)" by code_simp
  have c: "ht_live ex_full_left = 8" by code_simp
  show ?thesis using ex_full_built a b c by simp
qed

subsection \<open>C5: round trip\<close>

text \<open>
  Claim C5: for every hash \<open>h\<close> and value \<open>v\<close>, if \<open>add(h, v)\<close> succeeds on a table,
  then an immediately following \<open>find(h)\<close> on that table returns \<open>v\<close>.
\<close>

theorem add_then_find:
  assumes "reach h its" and "ht_add h hash val = Some (Inr (OK, h'))"
  shows "ht_find h' hash = Some (Inr val)"
proof -
  from reach_inv[OF assms(1)] obtain cs where inv: "ht_inv h cs" by blast
  from add_ok_facts(2)[OF inv assms(2)] obtain cs' where inv': "ht_inv h' cs'" ..
  from ht_find_present[OF inv' add_ok_facts(3)[OF inv assms(2)]] show ?thesis .
qed

theorem add_then_find_witness:
  "reach (ht_init 4 :: nat ht) [] \<and>
   ht_add (ht_init 4) 5 (Some 50) = Some (Inr (OK, ex_one)) \<and>
   ht_find ex_one 5 = Some (Inr (Some 50))"
  using add_then_find[OF reach_init4 ex_one_built] reach_init4 ex_one_built by simp

subsection \<open>C6: uniqueness\<close>

text \<open>
  Claim C6: after \<open>add(h, v)\<close> succeeds, a second \<open>add(h, v2)\<close> fails with
  \<open>DuplicateKey\<close>, performs no mutation of the table, and \<open>find(h)\<close> still returns
  \<open>v\<close>. The table the failed call returns is the table it was given.
\<close>

theorem add_duplicate:
  assumes "reach h its" and "ht_add h hash val = Some (Inr (OK, h1))"
  shows "ht_add h1 hash val2 = Some (Inr (ERR EEXIST, h1)) \<and> ht_find h1 hash = Some (Inr val)"
proof -
  from reach_inv[OF assms(1)] obtain cs where inv: "ht_inv h cs" by blast
  from add_ok_facts(2)[OF inv assms(2)] obtain cs' where inv': "ht_inv h1 cs'" ..
  note p = add_ok_facts(3)[OF inv assms(2)]
  have "hash_at (ht_items h1) (length (ht_items h)) = Some hash"
    using p by (simp add: hash_at_payload)
  from ht_add_present[OF inv' this] ht_find_present[OF inv' p] show ?thesis by simp
qed

theorem add_duplicate_witness:
  "reach (ht_init 4 :: nat ht) [] \<and>
   ht_add (ht_init 4) 5 (Some 50) = Some (Inr (OK, ex_one)) \<and>
   ht_add ex_one 5 (Some 7) = Some (Inr (ERR EEXIST, ex_one)) \<and>
   ht_find ex_one 5 = Some (Inr (Some 50))"
  using add_duplicate[OF reach_init4 ex_one_built, of "Some 7"] reach_init4 ex_one_built
  by simp

subsection \<open>C7: remove correctness\<close>

text \<open>
  Claim C7: after \<open>add(h, v)\<close> succeeds, \<open>remove(h)\<close> succeeds; a subsequent
  \<open>find(h)\<close> reports absent; and a subsequent \<open>remove(h)\<close> fails with \<open>NotFound\<close>,
  leaving the table unchanged.
\<close>

theorem add_remove_find:
  assumes "reach h its" and "ht_add h hash val = Some (Inr (OK, h1))"
  shows "\<exists>h2. ht_remove h1 hash = Some (Inr (OK, h2)) \<and>
           ht_find h2 hash = Some (Inr None) \<and>
           ht_remove h2 hash = Some (Inr (ERR ENOENT, h2))"
proof -
  from reach_inv[OF assms(1)] obtain cs where inv: "ht_inv h cs" by blast
  from add_ok_facts(2)[OF inv assms(2)] obtain cs1 where inv1: "ht_inv h1 cs1" ..
  define a where "a = length (ht_items h)"
  have p: "payload (ht_items h1) a = Some (hash, val)"
    unfolding a_def by (rule add_ok_facts(3)[OF inv assms(2)])
  then have ha: "hash_at (ht_items h1) a = Some hash" by (simp add: hash_at_payload)
  from ht_remove_present[OF inv1 ha] obtain h2 where
    run: "ht_remove h1 hash = Some (Inr (OK, h2))"
    and inv2: "ht_inv h2 (cs1(ht_slot h1 hash := remove1 a (cs1 (ht_slot h1 hash))))"
    and gone: "load (ht_items h2) a = None"
    and pay: "\<forall>y. y \<noteq> a \<longrightarrow> payload (ht_items h2) y = payload (ht_items h1) y"
    by blast
  have abs: "\<forall>b. hash_at (ht_items h2) b \<noteq> Some hash"
  proof
    fix b
    show "hash_at (ht_items h2) b \<noteq> Some hash"
    proof (cases "b = a")
      case True
      then show ?thesis using gone by (simp add: hash_at_def)
    next
      case False
      then have "hash_at (ht_items h2) b = hash_at (ht_items h1) b"
        using pay by (simp add: hash_at_payload)
      then show ?thesis using ht_inv_hash_unique[OF inv1 ha] False by auto
    qed
  qed
  from run ht_find_absent[OF inv2 abs] ht_remove_absent[OF inv2 abs] show ?thesis by blast
qed

theorem add_remove_find_witness:
  "reach (ht_init 4 :: nat ht) [] \<and>
   ht_add (ht_init 4) 5 (Some 50) = Some (Inr (OK, ex_one)) \<and>
   ht_remove ex_one 5 = Some (Inr (OK, ex_gone)) \<and>
   ht_find ex_gone 5 = Some (Inr None) \<and>
   ht_remove ex_gone 5 = Some (Inr (ERR ENOENT, ex_gone))"
proof -
  have r: "ht_remove ex_one 5 = Some (Inr (OK, ex_gone))" by code_simp
  from add_remove_find[OF reach_init4 ex_one_built] r
  have "ht_find ex_gone 5 = Some (Inr None) \<and>
        ht_remove ex_gone 5 = Some (Inr (ERR ENOENT, ex_gone))"
    by auto
  then show ?thesis using reach_init4 ex_one_built r by simp
qed

subsection \<open>C8: the structural invariants\<close>

text \<open>
  Claim C8: every table state reachable from \<open>init\<close> by any sequence of \<open>add\<close>,
  \<open>remove\<close> and \<open>removeAtCursor\<close> operations satisfies both structural invariants:
  every entry resides in exactly one chain, the one at index
  \<open>hash mod bucketCount\<close>, and within each chain there is at most one entry per
  32-bit hash value. The chains \<open>cs\<close> are those of the buckets' queues, and
  \<open>hash mod bucketCount\<close> is the index of a bucket since the table is \<open>ht_sized\<close>.
  The reachable states include those after \<open>ht_iter\<close> and \<open>ht_next\<close>, which
  produce the iterators that \<open>ht_remove_at_iter\<close> is called on.
\<close>

theorem reachable_invariants:
  assumes "reach h its"
  shows "ht_sized h \<and> (\<exists>cs. inv_placement h cs \<and> inv_unique h cs)"
proof -
  from reach_inv[OF assms] obtain cs where "ht_inv h cs" by blast
  then have "ht_sized h" and "inv_placement h cs" and "inv_unique h cs"
    by (simp_all add: ht_inv_def)
  then show ?thesis by blast
qed

theorem reachable_invariants_witness:
  "reach ex_table [] \<and> ht_sized ex_table \<and>
   (\<exists>cs. inv_placement ex_table cs \<and> inv_unique ex_table cs)"
  using reachable_invariants[OF reach_ex_table] reach_ex_table by simp

subsection \<open>C9: a stored \<open>NULL\<close> value\<close>

text \<open>
  Claim C9: a stored \<open>NULL\<close> value pointer is indistinguishable from absence at the
  \<open>find\<close> interface: \<open>add(h, NULL)\<close> succeeds and stores the entry, yet for every
  hash whose stored value is \<open>NULL\<close>, \<open>find\<close> returns the same \<open>NULL\<close> result as
  \<open>find\<close> on a hash that is not in the table.
\<close>

theorem null_value_like_absent:
  assumes "reach h its"
  shows "(absent h x \<longrightarrow> (\<exists>h'. ht_add h x None = Some (Inr (OK, h')) \<and> stored h' x None)) \<and>
         (stored h x None \<and> absent h y \<longrightarrow>
            ht_find h x = Some (Inr None) \<and> ht_find h y = Some (Inr None))"
proof -
  from reach_inv[OF assms] obtain cs where inv: "ht_inv h cs" by blast
  have one: "\<exists>h'. ht_add h x None = Some (Inr (OK, h')) \<and> stored h' x None" if "absent h x"
  proof -
    from that have abs: "\<forall>a. hash_at (ht_items h) a \<noteq> Some x" by (simp add: absent_iff)
    from ht_add_absent[OF inv abs, of None] show ?thesis by (auto simp: stored_iff)
  qed
  have two: "ht_find h x = Some (Inr None) \<and> ht_find h y = Some (Inr None)"
    if "stored h x None" "absent h y"
  proof -
    from that(1) obtain a where "payload (ht_items h) a = Some (x, None)"
      by (auto simp: stored_iff)
    from ht_find_present[OF inv this] have "ht_find h x = Some (Inr None)" .
    moreover from that(2) have "\<forall>a. hash_at (ht_items h) a \<noteq> Some y" by (simp add: absent_iff)
    from ht_find_absent[OF inv this] have "ht_find h y = Some (Inr None)" .
    ultimately show ?thesis by simp
  qed
  from one two show ?thesis by blast
qed

theorem null_value_like_absent_witness:
  "reach ex_null [] \<and>
   absent (ht_init 4 :: nat ht) 5 \<and>
   ht_add (ht_init 4) 5 None = Some (Inr (OK, ex_null)) \<and>
   stored ex_null 5 None \<and> absent ex_null 9 \<and>
   ht_find ex_null 5 = Some (Inr None) \<and> ht_find ex_null 9 = Some (Inr None)"
proof -
  have r: "reach ex_null []" by (rule reach.add[OF reach_init4 ex_null_built])
  have a: "absent (ht_init 4 :: nat ht) 5" by code_simp
  have s: "stored ex_null 5 None" by code_simp
  have b: "absent ex_null 9" by code_simp
  from null_value_like_absent[OF reach_init4, of 5] a ex_null_built
  have "\<exists>h'. ht_add (ht_init 4 :: nat ht) 5 None = Some (Inr (OK, h')) \<and> stored h' 5 None"
    by blast
  moreover from null_value_like_absent[OF r, of 5 9] s b
  have "ht_find ex_null 5 = Some (Inr None) \<and> ht_find ex_null 9 = Some (Inr None)"
    by blast
  ultimately show ?thesis using r a ex_null_built s b by simp
qed

subsection \<open>C10: the cursor after \<open>removeAtCursor\<close>\<close>

text \<open>
  Claim C10: a successful \<open>removeAtCursor\<close> does not advance or clear the
  iterator's cursor: the cursor still refers to the item that was just unlinked and
  freed, which is in no chain of the table, so the next call to \<open>next\<close> on that
  iterator reads the successor link of that item rather than starting from a live
  entry. The item was live and on the chain of the iterator's bucket before the
  call. The read through the pointer to the freed block is undefined behaviour in
  C; it is the fault \<open>InvalidPointer\<close> here.
\<close>

theorem remove_at_iter_leaves_cursor:
  assumes "reach h its" and "it \<in> set its"
    and "ht_remove_at_iter h it = Inr (OK, h', it')"
  shows "it' = it \<and>
         (\<exists>a. htit_cursor it' = Some a \<and>
              load (ht_items h) a \<noteq> None \<and>
              (\<exists>as. ht_chain h (unat (htit_slot it)) as \<and> a \<in> set as) \<and>
              load (ht_items h') a = None \<and>
              (\<forall>i as. ht_chain h' i as \<longrightarrow> a \<notin> set as) \<and>
              ht_next h' it' = Inl InvalidPointer)"
proof -
  from reach_inv[OF assms(1)] assms(2) obtain cs where inv: "ht_inv h cs" and ok: "iter_ok h it"
    by blast
  from assms(3) obtain a where cur: "htit_cursor it = Some a"
    by (cases "htit_cursor it") (auto simp: ht_remove_at_iter_def)
  obtain e where e: "load (ht_items h) a = Some e"
    using remove_at_iter_dead[OF cur, of h] assms(3) by (cases "load (ht_items h) a") auto
  from remove_at_iter_live[OF inv ok cur e] assms(3)
  have it': "it' = it" and gone: "load (ht_items h') a = None"
    and n: "ht_nentries h' = ht_nentries h"
    by auto
  have notin: "\<forall>i as. ht_chain h' i as \<longrightarrow> a \<notin> set as"
    using gone by (auto dest: ht_chain_live)
  from ok cur e have sl: "unat (htit_slot it) < length (ht_entries h)"
    and home: "ht_slot h (hti_hash e) = unat (htit_slot it)"
    by (simp_all add: iter_ok_def)
  have "a \<in> set (cs (unat (htit_slot it)))" using ht_inv_home[OF inv e] home by simp
  then have before: "\<exists>as. ht_chain h (unat (htit_slot it)) as \<and> a \<in> set as"
    using ht_inv_chain[OF inv sl] by blast
  have "unat (htit_slot it) < unat (ht_nentries h)"
    using sl ht_inv_sized[OF inv] by (simp add: ht_sized_def)
  then have "htit_slot it \<noteq> ht_nentries h'" using n by auto
  then have "ht_next h' it = Inl InvalidPointer"
    using cur gone by (subst ht_next.simps) simp
  then show ?thesis using it' cur e before gone notin by simp
qed

theorem remove_at_iter_leaves_cursor_witness:
  "reach ex_chain [ex_it1] \<and>
   ht_remove_at_iter ex_chain ex_it1 = Inr (OK, ex_chain_cut, ex_it1) \<and>
   htit_cursor ex_it1 = Some 1 \<and>
   load (ht_items ex_chain_cut) 1 = None \<and>
   ht_next ex_chain_cut ex_it1 = Inl InvalidPointer"
proof -
  have m: "ex_it1 \<in> set [ex_it1]" by simp
  have c: "htit_cursor ex_it1 = Some 1" by (simp add: ex_it1_def)
  from remove_at_iter_leaves_cursor[OF reach_ex_chain_it1 m ex_chain_cut_run] c
  have "load (ht_items ex_chain_cut) 1 = None \<and>
        ht_next ex_chain_cut ex_it1 = Inl InvalidPointer"
    by auto
  then show ?thesis using reach_ex_chain_it1 ex_chain_cut_run c by simp
qed

section \<open>Further properties of the code\<close>

subsection \<open>What a full iteration yields\<close>

text \<open>
  For every reachable table, a full iteration over a freshly begun iterator returns
  without a fault, and when the table holds at least one entry it yields fewer
  values than the table has entries: \<open>ht_next\<close> walks bucket 0 only and never
  returns the last item of its chain.
\<close>

theorem iteration_never_complete:
  assumes "reach h its" and "ht_iter h = Inr it"
  shows "\<exists>vs. ht_drain h it = Some (Inr vs) \<and>
              (ht_pairs h \<noteq> [] \<longrightarrow> length vs < length (ht_pairs h))"
proof -
  from reach_inv[OF assms(1)] obtain cs where inv: "ht_inv h cs" by blast
  have sized: "ht_sized h" by (rule ht_inv_sized[OF inv])
  then have pos: "unat (0 :: 64 word) < length (ht_entries h)"
    by (simp add: ht_sized_def unat_gt_0)
  then have pos0: "0 < length (ht_entries h)" by simp
  have ch: "ht_chain h 0 (cs 0)" by (rule ht_inv_chain[OF inv pos0])
  have first: "tqh_first (ht_entries h ! 0) = (case cs 0 of [] \<Rightarrow> None | a # _ \<Rightarrow> Some a)"
    using ch by (cases "cs 0") (auto simp: ht_chain_def)
  have it: "it = \<lparr>htit_slot = 0, htit_cursor = (case cs 0 of [] \<Rightarrow> None | a # _ \<Rightarrow> Some a)\<rparr>"
    using assms(2) pos0 first by (simp add: ht_iter_def)
  have "cs (unat (0 :: 64 word)) = [] @ cs 0" by simp
  from drain_chain[OF inv pos this] it obtain vs where
    vs: "ht_drain h it = Some (Inr vs)" "length vs \<le> length (cs 0) - 1"
    by auto
  have le: "length (cs 0) \<le> length (ht_pairs h)"
    using chain_le_live[OF ch ht_inv_distinct[OF inv pos0]] by (simp add: length_ht_pairs)
  have "length vs < length (ht_pairs h)" if "ht_pairs h \<noteq> []"
  proof (cases "cs 0")
    case Nil
    then show ?thesis using vs(2) that by simp
  next
    case (Cons a as)
    then show ?thesis using vs(2) le by simp
  qed
  then show ?thesis using vs(1) by blast
qed

theorem iteration_never_complete_witness:
  "reach ex_chain [] \<and> ht_iter ex_chain = Inr ex_it0 \<and> ht_pairs ex_chain \<noteq> [] \<and>
   (\<exists>vs. ht_drain ex_chain ex_it0 = Some (Inr vs) \<and> length vs < length (ht_pairs ex_chain))"
proof -
  have p: "ht_pairs ex_chain \<noteq> []" by code_simp
  from iteration_never_complete[OF reach_ex_chain ex_chain_iter] p reach_ex_chain ex_chain_iter
  show ?thesis by simp
qed

subsection \<open>What \<open>ht_remove_at_iter\<close> removes after \<open>ht_next\<close>\<close>

text \<open>
  For every reachable table and every iterator begun on it: when \<open>ht_next\<close> returns
  a value \<open>v\<close>, that value is the data of the item \<open>a\<close> the cursor was on, the
  cursor is now on the successor \<open>b\<close> of \<open>a\<close> in the same chain, and a following
  \<open>ht_remove_at_iter\<close> succeeds and removes exactly \<open>b\<close>: \<open>ht_find\<close> on the hash
  of \<open>b\<close> reports absent, \<open>ht_find\<close> on the hash of \<open>a\<close> still returns \<open>v\<close>, and
  every other hash is found as before.
\<close>

theorem remove_at_iter_after_next:
  assumes "reach h its" and "it \<in> set its" and "ht_next h it = Inr (Some v, it')"
  shows "\<exists>a b ea eb h'.
           htit_cursor it = Some a \<and> load (ht_items h) a = Some ea \<and>
           hti_data ea = Some v \<and> tqe_next ea = Some b \<and>
           htit_cursor it' = Some b \<and> load (ht_items h) b = Some eb \<and>
           ht_remove_at_iter h it' = Inr (OK, h', it') \<and>
           ht_find h' (hti_hash eb) = Some (Inr None) \<and>
           ht_find h' (hti_hash ea) = Some (Inr (Some v)) \<and>
           (\<forall>y. y \<noteq> hti_hash eb \<longrightarrow> ht_find h' y = ht_find h y)"
proof -
  from reach_inv[OF assms(1)] assms(2) obtain cs where inv: "ht_inv h cs" and ok: "iter_ok h it"
    by blast
  from next_value[OF assms(3)] obtain a ea b where
    cur: "htit_cursor it = Some a" and ea: "load (ht_items h) a = Some ea"
    and v: "hti_data ea = Some v" and nb: "tqe_next ea = Some b"
    and it': "it' = it\<lparr>htit_cursor := Some b\<rparr>"
    by blast
  have ok': "iter_ok h it'" by (rule next_iter_ok[OF inv ok assms(3)])
  have cur': "htit_cursor it' = Some b" using it' by simp
  from ok cur ea have sl: "unat (htit_slot it) < length (ht_entries h)"
    and home: "ht_slot h (hti_hash ea) = unat (htit_slot it)"
    by (simp_all add: iter_ok_def)
  have ain: "a \<in> set (cs (unat (htit_slot it)))" using ht_inv_home[OF inv ea] home by simp
  have ch: "ht_chain h (unat (htit_slot it)) (cs (unat (htit_slot it)))"
    by (rule ht_inv_chain[OF inv sl])
  then have "seg (ht_items h) (Head (unat (htit_slot it)))
               (tqh_first (ht_entries h ! unat (htit_slot it))) (cs (unat (htit_slot it))) None"
    by (simp add: ht_chain_def)
  from seg_next_in[OF this ain ea nb] have bin: "b \<in> set (cs (unat (htit_slot it)))" .
  from ht_chain_live[OF ch bin] obtain eb where eb: "load (ht_items h) b = Some eb" by blast
  from remove_at_iter_live[OF inv ok' cur' eb] obtain h' where
    run: "ht_remove_at_iter h it' = Inr (OK, h', it')"
    and inv': "ht_inv h' (cs(unat (htit_slot it') := remove1 b (cs (unat (htit_slot it')))))"
    and gone: "load (ht_items h') b = None"
    and pay: "\<forall>y. y \<noteq> b \<longrightarrow> payload (ht_items h') y = payload (ht_items h) y"
    by blast
  have hb: "hash_at (ht_items h) b = Some (hti_hash eb)" using eb by (simp add: hash_at_def)
  have ha: "hash_at (ht_items h) a = Some (hti_hash ea)" using ea by (simp add: hash_at_def)
  have neq: "a \<noteq> b"
  proof
    assume "a = b"
    then have "tqe_next eb = Some b" using ea eb nb by simp
    have "distinct (cs (unat (htit_slot it)))" by (rule ht_inv_distinct[OF inv sl])
    from bin obtain xs ys where sp: "cs (unat (htit_slot it)) = xs @ b # ys"
      by (auto simp: in_set_conv_decomp)
    with ch eb \<open>tqe_next eb = Some b\<close> have "seg (ht_items h) (Next b) (Some b) ys None"
      by (auto simp: ht_chain_def seg_append split: option.splits)
    then have "b \<in> set ys" by (cases ys) auto
    then show False using \<open>distinct (cs (unat (htit_slot it)))\<close> sp by simp
  qed
  have abs': "\<forall>c. hash_at (ht_items h') c \<noteq> Some (hti_hash eb)"
  proof
    fix c
    show "hash_at (ht_items h') c \<noteq> Some (hti_hash eb)"
    proof (cases "c = b")
      case True
      then show ?thesis using gone by (simp add: hash_at_def)
    next
      case False
      then have "hash_at (ht_items h') c = hash_at (ht_items h) c"
        using pay by (simp add: hash_at_payload)
      then show ?thesis using ht_inv_hash_unique[OF inv hb] False by auto
    qed
  qed
  have f1: "ht_find h' (hti_hash eb) = Some (Inr None)" by (rule ht_find_absent[OF inv' abs'])
  have "payload (ht_items h') a = Some (hti_hash ea, Some v)"
    using pay neq ea v by (simp add: payload_def)
  from ht_find_present[OF inv' this] have f2: "ht_find h' (hti_hash ea) = Some (Inr (Some v))" .
  have f3: "ht_find h' y = ht_find h y" if y: "y \<noteq> hti_hash eb" for y
  proof (rule find_frame[OF inv inv'])
    fix c
    assume c: "hash_at (ht_items h) c = Some y \<or> hash_at (ht_items h') c = Some y"
    have "c \<noteq> b"
    proof
      assume "c = b"
      with c hb gone y show False by (auto simp: hash_at_def)
    qed
    then show "payload (ht_items h') c = payload (ht_items h) c" using pay by simp
  qed
  from cur ea v nb cur' eb run f1 f2 f3 show ?thesis by blast
qed

theorem remove_at_iter_after_next_witness:
  "reach ex_chain [ex_it0] \<and> ht_next ex_chain ex_it0 = Inr (Some 1, ex_it1) \<and>
   (\<exists>a b ea eb h'.
      htit_cursor ex_it0 = Some a \<and> load (ht_items ex_chain) a = Some ea \<and>
      hti_data ea = Some 1 \<and> tqe_next ea = Some b \<and>
      htit_cursor ex_it1 = Some b \<and> load (ht_items ex_chain) b = Some eb \<and>
      ht_remove_at_iter ex_chain ex_it1 = Inr (OK, h', ex_it1) \<and>
      ht_find h' (hti_hash eb) = Some (Inr None) \<and>
      ht_find h' (hti_hash ea) = Some (Inr (Some 1)) \<and>
      (\<forall>y. y \<noteq> hti_hash eb \<longrightarrow> ht_find h' y = ht_find ex_chain y))"
proof -
  have r: "reach ex_chain [ex_it0]" by (rule reach.iter[OF reach_ex_chain ex_chain_iter])
  have m: "ex_it0 \<in> set [ex_it0]" by simp
  from remove_at_iter_after_next[OF r m ex_chain_next] r ex_chain_next
  show ?thesis by simp
qed

subsection \<open>\<open>ht_destroy\<close> frees no item\<close>

text \<open>
  For every reachable table \<open>ht_destroy\<close> returns without a fault, and every item
  block that was allocated before the call is still allocated after it.
\<close>

theorem destroy_frees_nothing:
  assumes "reach h its"
  shows "\<exists>m. ht_destroy h = Some (Inr m) \<and> ht_live m = ht_live (ht_items h) \<and>
           (\<forall>a. (load m a = None) = (load (ht_items h) a = None))"
proof -
  from reach_inv[OF assms] obtain cs where inv: "ht_inv h cs" by blast
  define cs' where "cs' = (\<lambda>j. if j < length (ht_entries h) then cs j else [])"
  have chains: "\<forall>j. unat (0 :: 64 word) \<le> j \<and> j < length (ht_entries h) \<longrightarrow>
                   ht_chain h j (cs' j) \<and> distinct (cs' j)"
    using ht_inv_chain[OF inv] ht_inv_distinct[OF inv] by (simp add: cs'_def)
  have disj: "\<forall>j j'. j \<noteq> j' \<longrightarrow> set (cs' j) \<inter> set (cs' j') = {}"
    using ht_inv_disjoint[OF inv] by (auto simp: cs'_def)
  from destroy_for_keeps[OF ht_inv_sized[OF inv] chains disj] obtain h' where
    run: "ht_destroy_for h 0 = Some (Inr h')"
    and len: "length (ht_items h') = length (ht_items h)"
    and pay: "\<forall>x. payload (ht_items h') x = payload (ht_items h) x"
    by blast
  have "ht_destroy h = Some (Inr (ht_items h'))" using run by (simp add: ht_destroy_def)
  moreover have "ht_live (ht_items h') = ht_live (ht_items h)"
    by (rule ht_live_payload[OF len pay])
  moreover have "\<forall>a. (load (ht_items h') a = None) = (load (ht_items h) a = None)"
  proof
    fix a
    have "(payload (ht_items h') a = None) = (payload (ht_items h) a = None)"
      using pay by simp
    then show "(load (ht_items h') a = None) = (load (ht_items h) a = None)"
      by (simp add: payload_def)
  qed
  ultimately show ?thesis by blast
qed

theorem destroy_frees_nothing_witness:
  "reach ex_full [] \<and>
   (\<exists>m. ht_destroy ex_full = Some (Inr m) \<and> ht_live m = ht_live (ht_items ex_full) \<and>
        (\<forall>a. (load m a = None) = (load (ht_items ex_full) a = None)))"
proof -
  have r: "reach ex_full []" by (rule reach_add_all[OF reach_init4 ex_full_built])
  from destroy_frees_nothing[OF r] r show ?thesis by simp
qed

subsection \<open>Calls on a reachable table return\<close>

text \<open>
  On every reachable table \<open>ht_find\<close>, \<open>ht_add\<close>, \<open>ht_remove\<close> and \<open>ht_iter\<close>
  return: their chain walks end and none of them has undefined behaviour.
\<close>

theorem reachable_calls_return:
  assumes "reach h its"
  shows "(\<exists>r. ht_find h x = Some (Inr r)) \<and>
         (\<exists>st h'. ht_add h x v = Some (Inr (st, h'))) \<and>
         (\<exists>st h'. ht_remove h x = Some (Inr (st, h'))) \<and>
         (\<exists>it. ht_iter h = Inr it)"
proof -
  from reach_inv[OF assms] obtain cs where inv: "ht_inv h cs" by blast
  have sized: "ht_sized h" by (rule ht_inv_sized[OF inv])
  show ?thesis
  proof (cases "\<exists>a. hash_at (ht_items h) a = Some x")
    case True
    then obtain a where a: "hash_at (ht_items h) a = Some x" ..
    then obtain w where w: "payload (ht_items h) a = Some (x, w)"
      by (auto simp: hash_at_def payload_def)
    from ht_find_present[OF inv w] ht_add_present[OF inv a, of v] ht_remove_present[OF inv a]
      sized
    show ?thesis by (auto simp: ht_iter_def ht_sized_def unat_gt_0)
  next
    case False
    then have abs: "\<forall>a. hash_at (ht_items h) a \<noteq> Some x" by simp
    from ht_find_absent[OF inv abs] ht_add_absent[OF inv abs, of v] ht_remove_absent[OF inv abs]
      sized
    show ?thesis by (auto simp: ht_iter_def ht_sized_def unat_gt_0)
  qed
qed

theorem reachable_calls_return_witness:
  "reach ex_table [] \<and>
   (\<exists>r. ht_find ex_table 5 = Some (Inr r)) \<and>
   (\<exists>st h'. ht_add ex_table 5 (Some 7) = Some (Inr (st, h'))) \<and>
   (\<exists>st h'. ht_remove ex_table 5 = Some (Inr (st, h'))) \<and>
   (\<exists>it. ht_iter ex_table = Inr it)"
  using reachable_calls_return[OF reach_ex_table, of 5 "Some 7"] reach_ex_table by simp

subsection \<open>Other hashes are not affected\<close>

text \<open>
  On every reachable table, \<open>ht_add\<close> and \<open>ht_remove\<close> of a hash \<open>x\<close>, whether they
  succeed or fail, leave the result of \<open>ht_find\<close> for every other hash as it was.
\<close>

theorem other_keys_kept:
  assumes "reach h its" and "y \<noteq> x"
  shows "(ht_add h x v = Some (Inr (st, h')) \<longrightarrow> ht_find h' y = ht_find h y) \<and>
         (ht_remove h x = Some (Inr (st, h')) \<longrightarrow> ht_find h' y = ht_find h y)"
proof -
  from reach_inv[OF assms(1)] obtain cs where inv: "ht_inv h cs" by blast
  have add: "ht_find h' y = ht_find h y" if run: "ht_add h x v = Some (Inr (st, h'))"
  proof (cases "\<exists>a. hash_at (ht_items h) a = Some x")
    case True
    then obtain a where "hash_at (ht_items h) a = Some x" ..
    from ht_add_present[OF inv this, of v] run show ?thesis by simp
  next
    case False
    then have abs: "\<forall>a. hash_at (ht_items h) a \<noteq> Some x" by simp
    from ht_add_absent[OF inv abs, of v] run obtain cs' where
      inv': "ht_inv h' cs'"
      and new: "payload (ht_items h') (length (ht_items h)) = Some (x, v)"
      and pay: "\<forall>c. c \<noteq> length (ht_items h) \<longrightarrow>
                  payload (ht_items h') c = payload (ht_items h) c"
      by auto
    show ?thesis
    proof (rule find_frame[OF inv inv'])
      fix c
      assume c: "hash_at (ht_items h) c = Some y \<or> hash_at (ht_items h') c = Some y"
      have "c \<noteq> length (ht_items h)"
      proof
        assume eq: "c = length (ht_items h)"
        then have "hash_at (ht_items h) c = None" by (simp add: hash_at_def load_def)
        moreover have "hash_at (ht_items h') c = Some x" using new eq by (simp add: hash_at_payload)
        ultimately show False using c assms(2) by simp
      qed
      then show "payload (ht_items h') c = payload (ht_items h) c" using pay by simp
    qed
  qed
  have rem: "ht_find h' y = ht_find h y" if run: "ht_remove h x = Some (Inr (st, h'))"
  proof (cases "\<exists>a. hash_at (ht_items h) a = Some x")
    case False
    then have abs: "\<forall>a. hash_at (ht_items h) a \<noteq> Some x" by simp
    from ht_remove_absent[OF inv abs] run show ?thesis by simp
  next
    case True
    then obtain a where a: "hash_at (ht_items h) a = Some x" ..
    from ht_remove_present[OF inv a] run obtain cs' where
      inv': "ht_inv h' cs'"
      and gone: "load (ht_items h') a = None"
      and pay: "\<forall>c. c \<noteq> a \<longrightarrow> payload (ht_items h') c = payload (ht_items h) c"
      by auto
    show ?thesis
    proof (rule find_frame[OF inv inv'])
      fix c
      assume c: "hash_at (ht_items h) c = Some y \<or> hash_at (ht_items h') c = Some y"
      have "c \<noteq> a"
      proof
        assume "c = a"
        with c a gone assms(2) show False by (auto simp: hash_at_def)
      qed
      then show "payload (ht_items h') c = payload (ht_items h) c" using pay by simp
    qed
  qed
  from add rem show ?thesis by blast
qed

theorem other_keys_kept_witness:
  "reach (ht_init 4 :: nat ht) [] \<and> (9 :: 32 word) \<noteq> 5 \<and>
   ht_add (ht_init 4) 5 (Some 50) = Some (Inr (OK, ex_one)) \<and>
   ht_find ex_one 9 = ht_find (ht_init 4) 9 \<and>
   reach ex_one [] \<and>
   ht_remove ex_one 5 = Some (Inr (OK, ex_gone)) \<and>
   ht_find ex_gone 9 = ht_find ex_one 9"
proof -
  have ne: "(9 :: 32 word) \<noteq> 5" by simp
  have r1: "reach ex_one []" by (rule reach.add[OF reach_init4 ex_one_built])
  have rm: "ht_remove ex_one 5 = Some (Inr (OK, ex_gone))" by code_simp
  from other_keys_kept[OF reach_init4 ne, of "Some 50" OK ex_one] ex_one_built
  have a: "ht_find ex_one 9 = ht_find (ht_init 4) 9" by simp
  from other_keys_kept[OF r1 ne, of "Some 50" OK ex_gone] rm
  have b: "ht_find ex_gone 9 = ht_find ex_one 9" by simp
  from a b reach_init4 ne ex_one_built r1 rm show ?thesis by simp
qed

end
